theory Spec2Isabelle
  imports Complex_Main "HOL-Library.Log_Nat"
begin

section \<open>JavaScript numbers\<close>

text \<open>
  A JavaScript number is an IEEE 754 binary64 value. A finite one is modelled by the real
  it denotes (\<open>-0\<close> and \<open>0\<close> are the same real: the code only uses \<open>+\<close>, \<open>-\<close>, the
  comparisons and \<open>===\<close>, none of which tells them apart), and the two infinities are
  values of their own. \<open>NaN\<close> is left out: the keys and amounts passed to the two classes
  are finite and carry the type \<open>real\<close>, a stored intensity is an amount or the sum of
  a stored intensity and an amount, and neither such a sum nor the difference of two keys
  is ever \<open>NaN\<close>.

  The result of an arithmetic operation is the exact result rounded to the nearest double,
  ties to the double with an even significand, and an infinity when the rounded magnitude
  reaches \<open>2 ^ 1024\<close>. \<open>binExponent x\<close> is the exponent \<open>e\<close> with \<open>2 ^ e \<le> |x| < 2 ^ (e + 1)\<close>
  (\<open>binExponent_bounds\<close>); the doubles of that magnitude are the multiples of
  \<open>2 ^ (e - 52)\<close>, and of \<open>2 ^ -1074\<close> in the subnormal range.
\<close>

datatype number = Finite real | PosInfinity | NegInfinity

definition binExponent :: "real \<Rightarrow> int" where
  "binExponent x =
     (if 1 \<le> \<bar>x\<bar> then bitlen \<lfloor>\<bar>x\<bar>\<rfloor> - 1 else - bitlen (\<lceil>1 / \<bar>x\<bar>\<rceil> - 1))"

definition ulpExponent :: "real \<Rightarrow> int" where
  "ulpExponent x = max (binExponent x - 52) (- 1074)"

definition roundEven :: "real \<Rightarrow> int" where
  "roundEven q =
     (let n = \<lfloor>q\<rfloor>; r = q - of_int n
      in if r < 1 / 2 then n else if 1 / 2 < r then n + 1 else if even n then n else n + 1)"

definition roundDouble :: "real \<Rightarrow> number" where
  "roundDouble x =
     (if x = 0 then Finite 0
      else
        (let u = 2 powi ulpExponent x;
             y = of_int (roundEven (x / u)) * u
         in if 2 ^ 1024 \<le> \<bar>y\<bar> then (if 0 < x then PosInfinity else NegInfinity)
            else Finite y))"

text \<open>
  \<open>value + amount\<close> for a stored value and a finite amount, \<open>a - b\<close> for two finite keys,
  and \<open><\<close> between two numbers.
\<close>

fun doubleAdd :: "number \<Rightarrow> real \<Rightarrow> number" where
  "doubleAdd (Finite x) y = roundDouble (x + y)"
| "doubleAdd PosInfinity y = PosInfinity"
| "doubleAdd NegInfinity y = NegInfinity"

definition doubleSub :: "real \<Rightarrow> real \<Rightarrow> number" where
  "doubleSub x y = roundDouble (x - y)"

fun lessNumber :: "number \<Rightarrow> number \<Rightarrow> bool" where
  "lessNumber (Finite x) (Finite y) = (x < y)"
| "lessNumber (Finite x) PosInfinity = True"
| "lessNumber NegInfinity (Finite y) = True"
| "lessNumber NegInfinity PosInfinity = True"
| "lessNumber a b = False"

section \<open>The AVL tree (AVLTree.js)\<close>

text \<open>
  Keys are finite numbers, values are numbers. The cached height, which the code only ever
  sets to 1 or to \<open>1 + Math.max(..)\<close> of two heights, is a natural number. A node object
  \<open>{ key, value, height, left, right }\<close> is a \<open>Node\<close>, and \<open>null\<close> is \<open>Null\<close>. A node is
  referenced from one place only (its parent, or the tree's root), so the in-place field
  assignments of the source are modelled by rebuilding the node.
\<close>

datatype node = Null | Node (key: real) (val: number) (height: nat) (left: node) (right: node)

record AVLTree =
  root :: node

definition AVLTree_new :: AVLTree where
  "AVLTree_new = \<lparr>root = Null\<rparr>"

fun getHeight :: "node \<Rightarrow> nat" where
  "getHeight Null = 0"
| "getHeight (Node k v h l r) = h"

fun getBalanceFactor :: "node \<Rightarrow> int" where
  "getBalanceFactor Null = 0"
| "getBalanceFactor (Node k v h l r) = int (getHeight l) - int (getHeight r)"

text \<open>
  \<open>_rotateRight(y)\<close> reads \<open>y.left.right\<close> and \<open>_rotateLeft(x)\<close> reads \<open>x.right.left\<close>: on a
  node without that child the source throws a TypeError. The last equation of each function
  stands for that case; \<open>balance_rotations_defined\<close> below shows that \<open>_balance\<close> never
  reaches it.
\<close>

fun rotateRight :: "node \<Rightarrow> node" where
  "rotateRight (Node yk yv yh (Node xk xv xh xl T2) yr) =
     (let y = Node yk yv (1 + max (getHeight T2) (getHeight yr)) T2 yr
      in Node xk xv (1 + max (getHeight xl) (getHeight y)) xl y)"
| "rotateRight y = y"

fun rotateLeft :: "node \<Rightarrow> node" where
  "rotateLeft (Node xk xv xh xl (Node yk yv yh T2 yr)) =
     (let x = Node xk xv (1 + max (getHeight xl) (getHeight T2)) xl T2
      in Node yk yv (1 + max (getHeight x) (getHeight yr)) x yr)"
| "rotateLeft x = x"

fun balance :: "node \<Rightarrow> node" where
  "balance Null = Null"
| "balance (Node k v h l r) =
     (let balanceFactor = getBalanceFactor (Node k v h l r) in
      if balanceFactor > 1 then
        (if getBalanceFactor l < 0
         then rotateRight (Node k v h (rotateLeft l) r)
         else rotateRight (Node k v h l r))
      else if balanceFactor < - 1 then
        (if getBalanceFactor r > 0
         then rotateLeft (Node k v h l (rotateRight r))
         else rotateLeft (Node k v h l r))
      else Node k v h l r)"

fun insertNode :: "node \<Rightarrow> real \<Rightarrow> number \<Rightarrow> node" where
  "insertNode Null key' value' = Node key' value' 1 Null Null"
| "insertNode (Node k v h l r) key' value' =
     (if key' < k then
        (let l' = insertNode l key' value'
         in balance (Node k v (1 + max (getHeight l') (getHeight r)) l' r))
      else if key' > k then
        (let r' = insertNode r key' value'
         in balance (Node k v (1 + max (getHeight l) (getHeight r')) l r'))
      else Node k value' h l r)"

text \<open>
  \<open>_findMinNode\<close> is only called on a non-null node (the right child in the two-children
  case of \<open>_removeNode\<close>); on \<open>null\<close> the source throws.
\<close>

fun findMinNode :: "node \<Rightarrow> node" where
  "findMinNode Null = Null"
| "findMinNode (Node k v h l r) = (if l \<noteq> Null then findMinNode l else Node k v h l r)"

fun removeNode :: "node \<Rightarrow> real \<Rightarrow> node" where
  "removeNode Null key' = Null"
| "removeNode (Node k v h l r) key' =
     (if key' < k then
        (let l' = removeNode l key'
         in balance (Node k v (1 + max (getHeight l') (getHeight r)) l' r))
      else if key' > k then
        (let r' = removeNode r key'
         in balance (Node k v (1 + max (getHeight l) (getHeight r')) l r'))
      else if l = Null \<or> r = Null then
        (case (if l \<noteq> Null then l else r) of
           Null \<Rightarrow> Null
         | Node ck cv ch cl cr \<Rightarrow>
             balance (Node ck cv (1 + max (getHeight cl) (getHeight cr)) cl cr))
      else
        (let successor = findMinNode r;
             r' = removeNode r (key successor)
         in balance (Node (key successor) (val successor)
                      (1 + max (getHeight l) (getHeight r')) l r')))"

fun findNode :: "node \<Rightarrow> real \<Rightarrow> node" where
  "findNode Null key' = Null"
| "findNode (Node k v h l r) key' =
     (if key' = k then Node k v h l r
      else if key' < k then findNode l key' else findNode r key')"

fun findLessThan :: "node \<Rightarrow> real \<Rightarrow> node \<Rightarrow> node" where
  "findLessThan Null key' lastLess = lastLess"
| "findLessThan (Node k v h l r) key' lastLess =
     (if k \<ge> key' then findLessThan l key' lastLess
      else findLessThan r key' (Node k v h l r))"

fun findGreaterThan :: "node \<Rightarrow> real \<Rightarrow> node \<Rightarrow> node" where
  "findGreaterThan Null key' lastGreater = lastGreater"
| "findGreaterThan (Node k v h l r) key' lastGreater =
     (if k \<le> key' then findGreaterThan r key' lastGreater
      else findGreaterThan l key' (Node k v h l r))"

fun collectKeysInRange :: "node \<Rightarrow> real \<Rightarrow> real \<Rightarrow> real list \<Rightarrow> real list" where
  "collectKeysInRange Null fromKey toKey result = result"
| "collectKeysInRange (Node k v h l r) fromKey toKey result =
     (let result1 = (if k \<ge> fromKey \<and> k \<le> toKey then result @ [k] else result);
          result2 = (if fromKey < k then collectKeysInRange l fromKey toKey result1 else result1)
      in if toKey > k then collectKeysInRange r fromKey toKey result2 else result2)"

fun inOrder :: "node \<Rightarrow> (real \<times> number) list \<Rightarrow> (real \<times> number) list" where
  "inOrder Null result = result"
| "inOrder (Node k v h l r) result = inOrder r (inOrder l result @ [(k, v)])"

text \<open>
  \<open>update\<close> assigns \<open>node.value\<close> on the node that \<open>find\<close> returned; \<open>assignValue\<close> is that
  assignment, seen from the root: it follows the path of \<open>_findNode\<close> and replaces the value
  of the node found, touching no key, height or link.
\<close>

fun assignValue :: "node \<Rightarrow> real \<Rightarrow> number \<Rightarrow> node" where
  "assignValue Null key' value' = Null"
| "assignValue (Node k v h l r) key' value' =
     (if key' = k then Node k value' h l r
      else if key' < k then Node k v h (assignValue l key' value') r
      else Node k v h l (assignValue r key' value'))"

definition AVLTree_insert :: "AVLTree \<Rightarrow> real \<Rightarrow> number \<Rightarrow> AVLTree" where
  "AVLTree_insert T key' value' = T\<lparr>root := insertNode (root T) key' value'\<rparr>"

definition AVLTree_find :: "AVLTree \<Rightarrow> real \<Rightarrow> node" where
  "AVLTree_find T key' = findNode (root T) key'"

definition AVLTree_update :: "AVLTree \<Rightarrow> real \<Rightarrow> number \<Rightarrow> AVLTree" where
  "AVLTree_update T key' value' =
     (let node = AVLTree_find T key'
      in if node \<noteq> Null then T\<lparr>root := assignValue (root T) key' value'\<rparr> else T)"

definition AVLTree_remove :: "AVLTree \<Rightarrow> real \<Rightarrow> AVLTree" where
  "AVLTree_remove T key' = T\<lparr>root := removeNode (root T) key'\<rparr>"

definition AVLTree_findLessThan :: "AVLTree \<Rightarrow> real \<Rightarrow> node" where
  "AVLTree_findLessThan T key' = findLessThan (root T) key' Null"

definition AVLTree_findGreaterThan :: "AVLTree \<Rightarrow> real \<Rightarrow> node" where
  "AVLTree_findGreaterThan T key' = findGreaterThan (root T) key' Null"

definition findLessThanOrEqual :: "AVLTree \<Rightarrow> real \<Rightarrow> node" where
  "findLessThanOrEqual T key' =
     (let exact = AVLTree_find T key'
      in if exact \<noteq> Null then exact else AVLTree_findLessThan T key')"

definition findNearest :: "AVLTree \<Rightarrow> real \<Rightarrow> node" where
  "findNearest T key' =
     (let exact = AVLTree_find T key' in
      if exact \<noteq> Null then exact
      else
        (let less = AVLTree_findLessThan T key';
             greater = AVLTree_findGreaterThan T key'
         in if less = Null then greater
            else if greater = Null then less
            else if lessNumber (doubleSub key' (key less)) (doubleSub (key greater) key')
                 then less else greater))"

definition getKeysInRange :: "AVLTree \<Rightarrow> real \<Rightarrow> real \<Rightarrow> real list" where
  "getKeysInRange T fromKey toKey = collectKeysInRange (root T) fromKey toKey []"

definition inOrderTraversal :: "AVLTree \<Rightarrow> (real \<times> number) list" where
  "inOrderTraversal T = inOrder (root T) []"

section \<open>The range list (RangeList.js)\<close>

record RangeList =
  tree :: AVLTree

definition RangeList_new :: RangeList where
  "RangeList_new = \<lparr>tree = AVLTree_new\<rparr>"

definition getIntensityAt :: "RangeList \<Rightarrow> real \<Rightarrow> number" where
  "getIntensityAt R position =
     (let node = findLessThanOrEqual (tree R) position
      in if node \<noteq> Null then val node else Finite 0)"

definition ensurePointExists :: "RangeList \<Rightarrow> real \<Rightarrow> RangeList" where
  "ensurePointExists R position =
     (let node = findNearest (tree R) position in
      if node = Null \<or> key node \<noteq> position then
        (let intensity = getIntensityAt R position
         in R\<lparr>tree := AVLTree_insert (tree R) position intensity\<rparr>)
      else R)"

definition adjustStep :: "real \<Rightarrow> real \<Rightarrow> real \<Rightarrow> RangeList \<Rightarrow> real \<Rightarrow> RangeList" where
  "adjustStep from to amount R position =
     (let node = AVLTree_find (tree R) position in
      if node \<noteq> Null then
        (if position = from then
           R\<lparr>tree := AVLTree_update (tree R) position (doubleAdd (val node) amount)\<rparr>
         else if position < to then
           R\<lparr>tree := AVLTree_update (tree R) position (doubleAdd (val node) amount)\<rparr>
         else R)
      else R)"

definition adjustIntensities :: "RangeList \<Rightarrow> real \<Rightarrow> real \<Rightarrow> real \<Rightarrow> RangeList" where
  "adjustIntensities R from to amount =
     (let points = getKeysInRange (tree R) from to
      in foldl (adjustStep from to amount) R points)"

definition removeStep :: "real \<Rightarrow> real \<Rightarrow> RangeList \<Rightarrow> real \<Rightarrow> RangeList" where
  "removeStep from to R position =
     (if position > from \<and> position < to
      then R\<lparr>tree := AVLTree_remove (tree R) position\<rparr> else R)"

definition removePointsInRange :: "RangeList \<Rightarrow> real \<Rightarrow> real \<Rightarrow> RangeList" where
  "removePointsInRange R from to =
     (let points = getKeysInRange (tree R) from to
      in foldl (removeStep from to) R points)"

text \<open>
  The backward scan \<open>for (let i = points.length - 1; i > 0; i--)\<close> of
  \<open>_cleanupRedundantPoints\<close>: \<open>scanRedundant points i toRemove\<close> runs the iterations
  \<open>i, i - 1, .., 1\<close>. Every index read lies inside \<open>points\<close>.
\<close>

fun scanRedundant :: "(real \<times> number) list \<Rightarrow> nat \<Rightarrow> real list \<Rightarrow> real list" where
  "scanRedundant points 0 toRemove = toRemove"
| "scanRedundant points (Suc j) toRemove =
     scanRedundant points j
       (if snd (points ! Suc j) = snd (points ! j)
        then toRemove @ [fst (points ! Suc j)] else toRemove)"

definition cleanupRedundantPoints :: "RangeList \<Rightarrow> RangeList" where
  "cleanupRedundantPoints R =
     (let points = inOrderTraversal (tree R) in
      if length points \<le> 1 then R
      else
        (let toRemove0 = (if snd (points ! 0) = Finite 0 then [fst (points ! 0)] else []);
             toRemove = scanRedundant points (length points - 1) toRemove0
         in foldl (\<lambda>R' key'. R'\<lparr>tree := AVLTree_remove (tree R') key'\<rparr>) R toRemove))"

definition RangeList_add :: "RangeList \<Rightarrow> real \<Rightarrow> real \<Rightarrow> real \<Rightarrow> RangeList" where
  "RangeList_add R from to amount =
     (if from \<ge> to \<or> amount = 0 then R
      else
        (let R1 = ensurePointExists R from;
             R2 = ensurePointExists R1 to;
             R3 = adjustIntensities R2 from to amount
         in cleanupRedundantPoints R3))"

definition RangeList_set :: "RangeList \<Rightarrow> real \<Rightarrow> real \<Rightarrow> real \<Rightarrow> RangeList" where
  "RangeList_set R from to amount =
     (if from \<ge> to then R
      else
        (let intensityAfterRange = getIntensityAt R to;
             R1 = ensurePointExists R from;
             R2 = ensurePointExists R1 to;
             R3 = removePointsInRange R2 from to;
             R4 = R3\<lparr>tree := AVLTree_update (tree R3) from (Finite amount)\<rparr>;
             R5 = R4\<lparr>tree := AVLTree_update (tree R4) to intensityAfterRange\<rparr>
         in cleanupRedundantPoints R5))"

definition toArray :: "RangeList \<Rightarrow> (real \<times> number) list" where
  "toArray R = map (\<lambda>node. (fst node, snd node)) (inOrderTraversal (tree R))"

section \<open>Specification-side definitions\<close>

text \<open>
  The definitions from here on are not code of the repository: the properties proved
  below are stated with them.
  \<open>entries\<close> is the in-order sequence of a subtree without the accumulator of \<open>_inOrder\<close>
  (\<open>inOrder_entries\<close>), \<open>keySet\<close> its set of keys, \<open>increasing\<close> says that the keys of a
  list of pairs strictly increase, and \<open>bst\<close> is the order invariant of the tree.
\<close>

fun entries :: "node \<Rightarrow> (real \<times> number) list" where
  "entries Null = []"
| "entries (Node k v h l r) = entries l @ (k, v) # entries r"

definition keySet :: "node \<Rightarrow> real set" where
  "keySet t = fst ` set (entries t)"

definition increasing :: "(real \<times> number) list \<Rightarrow> bool" where
  "increasing ps = sorted_wrt (<) (map fst ps)"

definition bst :: "node \<Rightarrow> bool" where
  "bst t = increasing (entries t)"

text \<open>
  \<open>keysIn\<close> is \<open>_collectKeysInRange\<close> without its result parameter
  (\<open>collectKeysInRange_keysIn\<close>).
\<close>

fun keysIn :: "node \<Rightarrow> real \<Rightarrow> real \<Rightarrow> real list" where
  "keysIn Null f u = []"
| "keysIn (Node k v h l r) f u =
     (if f \<le> k \<and> k \<le> u then [k] else [])
     @ (if f < k then keysIn l f u else [])
     @ (if k < u then keysIn r f u else [])"

text \<open>
  \<open>avl\<close>: at every node the cached height is 1 + the maximum of the children's cached
  heights (0 for \<open>null\<close>) and the balance factor is -1, 0 or 1.
\<close>

fun avl :: "node \<Rightarrow> bool" where
  "avl Null = True"
| "avl (Node k v h l r) =
     (h = 1 + max (getHeight l) (getHeight r)
      \<and> getBalanceFactor (Node k v h l r) \<in> {- 1, 0, 1}
      \<and> avl l \<and> avl r)"

text \<open>
  The piecewise-constant function that a list of (position, intensity) pairs encodes:
  \<open>0\<close> before the first pair, and from each pair on, its intensity. On a list with increasing
  keys, \<open>effective ps x\<close> is the intensity of the greatest key at most \<open>x\<close>; \<open>governs ps x k v\<close>
  says that \<open>(k, v)\<close> is that pair.
\<close>

definition effective :: "(real \<times> number) list \<Rightarrow> real \<Rightarrow> number" where
  "effective ps x =
     (case filter (\<lambda>p. fst p \<le> x) ps of [] \<Rightarrow> Finite 0 | q # qs \<Rightarrow> snd (last (q # qs)))"

definition governs :: "(real \<times> number) list \<Rightarrow> real \<Rightarrow> real \<Rightarrow> number \<Rightarrow> bool" where
  "governs ps x k v \<longleftrightarrow>
     (k, v) \<in> set ps \<and> k \<le> x \<and> (\<forall>p\<in>set ps. fst p \<le> x \<longrightarrow> fst p \<le> k)"

text \<open>
  A reachable tree is the result of a sequence of calls of the three mutating methods on
  \<open>new AVLTree()\<close>.
\<close>

datatype treeOp = Insert real number | Update real number | Remove real

fun applyTreeOp :: "AVLTree \<Rightarrow> treeOp \<Rightarrow> AVLTree" where
  "applyTreeOp T (Insert k v) = AVLTree_insert T k v"
| "applyTreeOp T (Update k v) = AVLTree_update T k v"
| "applyTreeOp T (Remove k) = AVLTree_remove T k"

definition runTreeOps :: "treeOp list \<Rightarrow> AVLTree" where
  "runTreeOps ops = foldl applyTreeOp AVLTree_new ops"

text \<open>
  \<open>preOrderKeys\<close> lists the keys of a tree with every node before its left subtree and
  its left subtree before its right one.
  \<open>skeleton\<close> forgets the values of a tree and keeps keys, cached heights and links.
  \<open>nodeEntry\<close> is the key and value of a node returned by a query, \<open>None\<close> for \<open>null\<close>.
  \<open>nearestEntry\<close> is the contract of \<open>findNearest\<close> on the in-order sequence: the pair at
  \<open>k\<close> if there is one; otherwise the last pair below \<open>k\<close> when its distance to \<open>k\<close>, as the
  double subtraction gives it, is less than that of the first pair above \<open>k\<close>, that first
  pair above otherwise, the only one of the two that
  exists, and nothing on the empty sequence.
\<close>

fun preOrderKeys :: "node \<Rightarrow> real list" where
  "preOrderKeys Null = []"
| "preOrderKeys (Node k v h l r) = k # preOrderKeys l @ preOrderKeys r"

fun skeleton :: "node \<Rightarrow> node" where
  "skeleton Null = Null"
| "skeleton (Node k v h l r) = Node k (Finite 0) h (skeleton l) (skeleton r)"

fun nodeEntry :: "node \<Rightarrow> (real \<times> number) option" where
  "nodeEntry Null = None"
| "nodeEntry (Node k v h l r) = Some (k, v)"

definition nearestEntry :: "(real \<times> number) list \<Rightarrow> real \<Rightarrow> (real \<times> number) option" where
  "nearestEntry ps k =
     (case filter (\<lambda>p. fst p = k) ps of
        p # _ \<Rightarrow> Some p
      | [] \<Rightarrow>
         (let below = filter (\<lambda>p. fst p < k) ps;
              above = filter (\<lambda>p. k < fst p) ps
          in if below = [] then (if above = [] then None else Some (hd above))
             else if above = [] then Some (last below)
             else if lessNumber (doubleSub k (fst (last below))) (doubleSub (fst (hd above)) k)
                  then Some (last below)
             else Some (hd above)))"

text \<open>
  What \<open>_cleanupRedundantPoints\<close> does to the in-order sequence: \<open>marks d ps\<close> are the keys
  of the pairs whose intensity equals that of the pair before them (\<open>d\<close> before the first
  pair), and \<open>canon d ps\<close> is \<open>ps\<close> without those pairs. \<open>effectiveFrom d\<close> is \<open>effective\<close> with
  the default \<open>d\<close> in place of \<open>0\<close>.
\<close>

fun marks :: "number \<Rightarrow> (real \<times> number) list \<Rightarrow> real set" where
  "marks d [] = {}"
| "marks d (p # ps) = (if snd p = d then {fst p} else {}) \<union> marks (snd p) ps"

fun canon :: "number \<Rightarrow> (real \<times> number) list \<Rightarrow> (real \<times> number) list" where
  "canon d [] = []"
| "canon d (p # ps) = (if snd p = d then canon (snd p) ps else p # canon (snd p) ps)"

definition effectiveFrom :: "number \<Rightarrow> (real \<times> number) list \<Rightarrow> real \<Rightarrow> number" where
  "effectiveFrom d ps x =
     (case filter (\<lambda>p. fst p \<le> x) ps of [] \<Rightarrow> d | q # qs \<Rightarrow> snd (last (q # qs)))"

text \<open>
  The canonical form of the exported pairs: no two adjacent pairs have the same intensity,
  and the first pair, if any, has an intensity other than \<open>0\<close>.
\<close>

fun distinctAdjacent :: "(real \<times> number) list \<Rightarrow> bool" where
  "distinctAdjacent (p # q # ps) = (snd p \<noteq> snd q \<and> distinctAdjacent (q # ps))"
| "distinctAdjacent ps = True"

definition canonical :: "(real \<times> number) list \<Rightarrow> bool" where
  "canonical ps = (distinctAdjacent ps \<and> (case ps of [] \<Rightarrow> True | p # qs \<Rightarrow> snd p \<noteq> Finite 0))"

text \<open>
  A reachable range list is the result of a sequence of \<open>add\<close> and \<open>set\<close> calls on
  \<open>new RangeList()\<close>.
\<close>

datatype listOp = AddCall real real real | SetCall real real real

fun applyListOp :: "RangeList \<Rightarrow> listOp \<Rightarrow> RangeList" where
  "applyListOp R (AddCall from to amount) = RangeList_add R from to amount"
| "applyListOp R (SetCall from to amount) = RangeList_set R from to amount"

definition runListOps :: "listOp list \<Rightarrow> RangeList" where
  "runListOps calls = foldl applyListOp RangeList_new calls"

section \<open>Rounding to a double\<close>

lemma binExponent_bounds:
  assumes "x \<noteq> 0"
  shows "2 powi binExponent x \<le> \<bar>x\<bar>" and "\<bar>x\<bar> < 2 powi (binExponent x + 1)"
proof -
  have "2 powi binExponent x \<le> \<bar>x\<bar> \<and> \<bar>x\<bar> < 2 powi (binExponent x + 1)"
  proof (cases "1 \<le> \<bar>x\<bar>")
    case True
    let ?n = "\<lfloor>\<bar>x\<bar>\<rfloor>"
    let ?b = "bitlen ?n"
    have n: "0 < ?n" using True by simp
    have b: "1 \<le> ?b" using bitlen_eq_zero_iff [of ?n] bitlen_nonneg [of ?n] n by linarith
    have E: "binExponent x = ?b - 1" using True by (simp add: binExponent_def)
    from bitlen_bounds [OF n] have B: "2 ^ nat (?b - 1) \<le> ?n" "?n < 2 ^ nat ?b" by simp_all
    have "(2::real) powi (?b - 1) = of_int (2 ^ nat (?b - 1))"
      using b by (simp add: power_int_nonneg_exp)
    also have "\<dots> \<le> of_int ?n" using B(1) by (simp only: of_int_le_iff)
    also have "\<dots> \<le> \<bar>x\<bar>" by simp
    finally have lo: "2 powi (?b - 1) \<le> \<bar>x\<bar>" .
    have "?n + 1 \<le> 2 ^ nat ?b" using B(2) by simp
    then have "of_int (?n + 1) \<le> (of_int (2 ^ nat ?b) :: real)" by (simp only: of_int_le_iff)
    moreover have "\<bar>x\<bar> < of_int (?n + 1)" by linarith
    moreover have "(2::real) powi ?b = of_int (2 ^ nat ?b)"
      using b by (simp add: power_int_nonneg_exp)
    ultimately have "\<bar>x\<bar> < 2 powi ?b" by linarith
    then show ?thesis using lo E by simp
  next
    case False
    let ?y = "1 / \<bar>x\<bar>"
    let ?m = "\<lceil>?y\<rceil>"
    let ?b = "bitlen (?m - 1)"
    have x: "0 < \<bar>x\<bar>" "\<bar>x\<bar> < 1" using assms False by simp_all
    then have y: "1 < ?y" by simp
    then have m: "0 < ?m - 1" by (simp add: less_ceiling_iff)
    have b: "1 \<le> ?b"
      using bitlen_eq_zero_iff [of "?m - 1"] bitlen_nonneg [of "?m - 1"] m by linarith
    have E: "binExponent x = - ?b" using False by (simp add: binExponent_def)
    from bitlen_bounds [OF m] have B: "2 ^ nat (?b - 1) \<le> ?m - 1" "?m - 1 < 2 ^ nat ?b"
      by simp_all
    have p: "(2::real) powi ?b = of_int (2 ^ nat ?b)" "(2::real) powi (?b - 1) = of_int (2 ^ nat (?b - 1))"
      using b by (simp_all add: power_int_nonneg_exp)
    have "?m \<le> 2 ^ nat ?b" using B(2) by simp
    then have "of_int ?m \<le> (of_int (2 ^ nat ?b) :: real)" by (simp only: of_int_le_iff)
    moreover have "?y \<le> of_int ?m" by simp
    ultimately have up: "?y \<le> 2 powi ?b" using p(1) by linarith
    have "(of_int (2 ^ nat (?b - 1)) :: real) \<le> of_int (?m - 1)"
      using B(1) by (simp only: of_int_le_iff)
    moreover have "of_int (?m - 1) < ?y" by (simp add: ceiling_correct [of ?y])
    ultimately have low: "2 powi (?b - 1) < ?y" using p(2) by linarith
    have pos: "(0::real) < 2 powi ?b" "(0::real) < 2 powi (?b - 1)" by simp_all
    have "1 / 2 powi ?b \<le> \<bar>x\<bar>"
      using up x(1) pos(1) by (simp add: field_simps)
    moreover have "\<bar>x\<bar> < 1 / 2 powi (?b - 1)"
      using low x(1) pos(2) by (simp add: field_simps)
    moreover have "(2::real) powi (- ?b) = 1 / 2 powi ?b" by (rule power_int_minus_divide)
    moreover have "(2::real) powi (- ?b + 1) = 1 / 2 powi (?b - 1)"
      using power_int_minus_divide [of "2::real" "?b - 1"] by simp
    ultimately show ?thesis using E by simp
  qed
  then show "2 powi binExponent x \<le> \<bar>x\<bar>" and "\<bar>x\<bar> < 2 powi (binExponent x + 1)"
    by simp_all
qed

lemma binExponent_unique:
  assumes "2 powi e \<le> \<bar>x\<bar>" "\<bar>x\<bar> < 2 powi (e + 1)"
  shows "binExponent x = e"
proof -
  have "x \<noteq> 0"
  proof
    assume "x = 0"
    then have "2 powi e \<le> (0::real)" using assms(1) by simp
    moreover have "(0::real) < 2 powi e" by simp
    ultimately show False by linarith
  qed
  note B = binExponent_bounds [OF this]
  have "(2::real) powi e < 2 powi (binExponent x + 1)" using assms(1) B(2) by linarith
  then have 1: "e < binExponent x + 1"
    using power_int_increasing [of "binExponent x + 1" e "2::real"] by (cases "e < binExponent x + 1") auto
  have "(2::real) powi binExponent x < 2 powi (e + 1)" using assms(2) B(1) by linarith
  then have 2: "binExponent x < e + 1"
    using power_int_increasing [of "e + 1" "binExponent x" "2::real"] by (cases "binExponent x < e + 1") auto
  show ?thesis using 1 2 by simp
qed

lemma roundEven_of_int [simp]: "roundEven (of_int n) = n"
  by (simp add: roundEven_def)

lemma roundDouble_in_binade:
  assumes "2 powi e \<le> \<bar>x\<bar>" "\<bar>x\<bar> < 2 powi (e + 1)"
  shows "roundDouble x =
           (let u = 2 powi max (e - 52) (- 1074);
                y = of_int (roundEven (x / u)) * u
            in if 2 ^ 1024 \<le> \<bar>y\<bar> then (if 0 < x then PosInfinity else NegInfinity)
               else Finite y)"
proof -
  have "x \<noteq> 0"
  proof
    assume "x = 0"
    then have "2 powi e \<le> (0::real)" using assms(1) by simp
    moreover have "(0::real) < 2 powi e" by simp
    ultimately show False by linarith
  qed
  then show ?thesis
    using binExponent_unique [OF assms] by (simp add: roundDouble_def ulpExponent_def Let_def)
qed

lemma roundEven_nearest: "\<bar>of_int (roundEven q) - q\<bar> \<le> 1 / 2"
proof -
  have "of_int \<lfloor>q\<rfloor> \<le> q" "q < of_int \<lfloor>q\<rfloor> + 1" by linarith+
  then show ?thesis by (auto simp: roundEven_def Let_def)
qed

text \<open>
  A real that is a double, \<open>m * 2 ^ e\<close> with \<open>|m| < 2 ^ 53\<close>, \<open>e \<ge> -1074\<close> and magnitude
  below \<open>2 ^ 1024\<close>, is rounded to itself.
\<close>

lemma roundDouble_exact:
  assumes x: "x = of_int m * 2 powi e" and m: "\<bar>m\<bar> < 2 ^ 53" and e: "- 1074 \<le> e"
    and fin: "\<bar>x\<bar> < 2 ^ 1024"
  shows "roundDouble x = Finite x"
proof (cases "x = 0")
  case True
  then show ?thesis by (simp add: roundDouble_def)
next
  case False
  note B = binExponent_bounds [OF False]
  define E where "E = binExponent x"
  define u where "u = ulpExponent x"
  have "\<bar>x\<bar> = of_int \<bar>m\<bar> * 2 powi e" by (simp add: x abs_mult)
  also have "\<dots> < 2 ^ 53 * 2 powi e"
  proof (rule mult_strict_right_mono)
    have "(of_int \<bar>m\<bar> :: real) < of_int (2 ^ 53)" using m by (simp only: of_int_less_iff)
    then show "(of_int \<bar>m\<bar> :: real) < 2 ^ 53" by simp
    show "(0::real) < 2 powi e" by simp
  qed
  also have "\<dots> = 2 powi (53 + e)" by (simp add: power_int_add)
  finally have "(2::real) powi E < 2 powi (53 + e)" using B(1) by (simp add: E_def)
  then have "E < 53 + e"
    using power_int_increasing [of "53 + e" E "2::real"] by (cases "E < 53 + e") auto
  then have ue: "u \<le> e" using e by (simp add: ulpExponent_def u_def E_def)
  define d where "d = nat (e - u)"
  have "e = int d + u" using ue by (simp add: d_def)
  then have "(2::real) powi e = 2 ^ d * 2 powi u"
    by (simp add: power_int_add)
  then have "x = of_int (m * 2 ^ d) * 2 powi u" by (simp add: x)
  then have "x / 2 powi u = of_int (m * 2 ^ d)" by simp
  then have "of_int (roundEven (x / 2 powi u)) * 2 powi u = x"
    using \<open>x = of_int (m * 2 ^ d) * 2 powi u\<close> by (simp only: roundEven_of_int)
  moreover have "\<not> (2::real) ^ 1024 \<le> \<bar>x\<bar>" using fin by simp
  ultimately show ?thesis using False by (simp add: roundDouble_def Let_def u_def)
qed

text \<open>The sum of two doubles that is too large is an infinity.\<close>

lemma roundDouble_overflow: "roundDouble (2 ^ 1023 + 2 ^ 1023) = PosInfinity"
proof -
  have "(2::real) ^ 1023 + 2 ^ 1023 = 2 ^ 1024" by simp
  moreover have "roundEven (of_int 4503599627370496) = 4503599627370496"
    by (simp only: roundEven_of_int)
  then have "roundEven 4503599627370496 = 4503599627370496" by simp
  then have "roundDouble (2 ^ 1024) = PosInfinity"
    using roundDouble_in_binade [of 1024 "2 ^ 1024"] by (simp add: Let_def)
  ultimately show ?thesis by simp
qed

lemma roundDouble_int:
  assumes "x \<in> \<int>" "\<bar>x\<bar> \<le> 2 ^ 53"
  shows "roundDouble x = Finite x"
proof (cases "x = 0")
  case True
  then show ?thesis by (simp add: roundDouble_def)
next
  case False
  obtain n where n: "x = of_int n" using assms(1) by (auto elim: Ints_cases)
  let ?e = "binExponent x"
  note B = binExponent_bounds [OF False]
  have "n \<noteq> 0" using False n by simp
  then have x1: "1 \<le> \<bar>x\<bar>" unfolding n by (simp flip: of_int_abs)
  have e0: "0 \<le> ?e"
  proof (rule ccontr)
    assume "\<not> 0 \<le> ?e"
    then have "?e + 1 \<le> 0" by simp
    then have "(2::real) powi (?e + 1) \<le> 2 powi 0" by (intro power_int_increasing) simp_all
    then show False using B(2) x1 by simp
  qed
  have e53: "?e \<le> 53"
  proof (rule ccontr)
    assume "\<not> ?e \<le> 53"
    then have "54 \<le> ?e" by simp
    then have "(2::real) powi 54 \<le> 2 powi ?e" by (intro power_int_increasing) simp_all
    then show False using B(1) assms(2) by simp
  qed
  let ?u = "ulpExponent x"
  have u: "?u = ?e - 52" using e0 by (simp add: ulpExponent_def)
  have "\<exists>m. x / 2 powi ?u = of_int m"
  proof (cases "?u \<le> 0")
    case True
    then have "(2::real) powi ?u = 1 / 2 ^ nat (- ?u)"
      using power_int_minus_divide [of "2::real" "- ?u"] by (simp add: power_int_nonneg_exp)
    then have "x / 2 powi ?u = of_int (n * 2 ^ nat (- ?u))" by (simp add: n)
    then show ?thesis by blast
  next
    case False
    then have e: "?e = 53" and u1: "?u = 1" using u e53 by simp_all
    have "(2::real) ^ 53 \<le> \<bar>x\<bar>" using B(1) e by simp
    then have "\<bar>x\<bar> = 2 ^ 53" using assms(2) by simp
    then have "x = 2 ^ 53 \<or> x = - (2 ^ 53)" by (simp add: abs_if split: if_splits)
    then have "x / 2 powi ?u = of_int (2 ^ 52) \<or> x / 2 powi ?u = of_int (- (2 ^ 52))"
      unfolding u1 by auto
    then show ?thesis by blast
  qed
  then obtain m where m: "x / 2 powi ?u = of_int m" by blast
  have "of_int (roundEven (x / 2 powi ?u)) * 2 powi ?u = x"
    unfolding m roundEven_of_int using m by (simp add: field_simps)
  moreover have "\<not> (2::real) ^ 1024 \<le> \<bar>x\<bar>" using assms(2) by simp
  ultimately show ?thesis using False by (simp add: roundDouble_def Let_def)
qed

lemma roundDouble_absorbs: "roundDouble 9007199254740993 = Finite 9007199254740992"
proof -
  have "roundEven (9007199254740993 / 2) = 4503599627370496"
    by (simp add: roundEven_def Let_def)
  then show ?thesis
    using roundDouble_in_binade [of 53 9007199254740993] by (simp add: Let_def)
qed

text \<open>
  \<open>9007199254740994 - 1 / 4\<close> and \<open>9007199254740994 + 1 / 4\<close> both round to
  \<open>9007199254740994\<close>.
\<close>

lemma roundDouble_near_tie:
  "roundDouble (36028797018963975 / 4) = Finite 9007199254740994"
  "roundDouble (36028797018963977 / 4) = Finite 9007199254740994"
proof -
  have 1: "roundEven (36028797018963975 / 8) = 4503599627370497"
    by (simp add: roundEven_def Let_def)
  have 2: "roundEven (36028797018963977 / 8) = 4503599627370497"
    by (simp add: roundEven_def Let_def)
  show "roundDouble (36028797018963975 / 4) = Finite 9007199254740994"
    using roundDouble_in_binade [of 53 "36028797018963975 / 4"] 1 by (simp add: Let_def)
  show "roundDouble (36028797018963977 / 4) = Finite 9007199254740994"
    using roundDouble_in_binade [of 53 "36028797018963977 / 4"] 2 by (simp add: Let_def)
qed

section \<open>The tree keeps its keys in order\<close>

lemma inOrder_entries: "inOrder t acc = acc @ entries t"
  by (induction t arbitrary: acc) simp_all

lemma keySet_Null [simp]: "keySet Null = {}"
  by (simp add: keySet_def)

lemma keySet_Node [simp]: "keySet (Node k v h l r) = insert k (keySet l \<union> keySet r)"
  by (auto simp: keySet_def)

lemma bst_Null [simp]: "bst Null"
  by (simp add: bst_def increasing_def)

lemma bst_Node [simp]:
  "bst (Node k v h l r) \<longleftrightarrow>
     bst l \<and> bst r \<and> (\<forall>x\<in>keySet l. x < k) \<and> (\<forall>x\<in>keySet r. k < x)"
  unfolding bst_def increasing_def keySet_def
  by (fastforce simp: sorted_wrt_append)

lemma entries_rotateRight [simp]: "entries (rotateRight t) = entries t"
  by (cases t rule: rotateRight.cases) (simp_all add: Let_def)

lemma entries_rotateLeft [simp]: "entries (rotateLeft t) = entries t"
  by (cases t rule: rotateLeft.cases) (simp_all add: Let_def)

lemma entries_balance [simp]: "entries (balance t) = entries t"
  by (cases t) (simp_all add: Let_def)

lemma keySet_balance [simp]: "keySet (balance t) = keySet t"
  by (simp add: keySet_def)

lemma bst_balance [simp]: "bst (balance t) = bst t"
  by (simp add: bst_def)

lemma bst_rotateRight [simp]: "bst (rotateRight t) = bst t"
  by (simp add: bst_def)

lemma bst_rotateLeft [simp]: "bst (rotateLeft t) = bst t"
  by (simp add: bst_def)

declare balance.simps [simp del]

lemma set_entries_keySet: "p \<in> set (entries t) \<Longrightarrow> fst p \<in> keySet t"
  by (simp add: keySet_def)

lemma keySet_insertNode [simp]: "keySet (insertNode t k v) = insert k (keySet t)"
  by (induction t) (auto simp: Let_def)

lemma bst_insertNode: "bst t \<Longrightarrow> bst (insertNode t k v)"
  by (induction t) (auto simp: Let_def)

lemma set_entries_insertNode:
  "bst t \<Longrightarrow>
     set (entries (insertNode t k v)) = insert (k, v) {p \<in> set (entries t). fst p \<noteq> k}"
proof (induction t)
  case Null
  then show ?case by simp
next
  case (Node k' v' h l r)
  have L: "\<And>p. p \<in> set (entries l) \<Longrightarrow> fst p < k'"
    using Node.prems by (auto simp: keySet_def)
  have R: "\<And>p. p \<in> set (entries r) \<Longrightarrow> k' < fst p"
    using Node.prems by (auto simp: keySet_def)
  show ?case
  proof (cases "k < k'")
    case True
    then show ?thesis using Node L R by (fastforce simp: Let_def)
  next
    case False
    show ?thesis
    proof (cases "k' < k")
      case True
      then show ?thesis using Node L R by (fastforce simp: Let_def)
    next
      case False
      with \<open>\<not> k < k'\<close> have "k = k'" by simp
      then show ?thesis using L R by fastforce
    qed
  qed
qed

lemma findMinNode_entries:
  "t \<noteq> Null \<Longrightarrow>
     findMinNode t \<noteq> Null \<and>
     (\<exists>rest. entries t = (key (findMinNode t), val (findMinNode t)) # rest)"
  by (induction t) auto

lemma findMinNode_least:
  assumes "t \<noteq> Null" "bst t"
  shows "(key (findMinNode t), val (findMinNode t)) \<in> set (entries t)"
    and "\<And>p. p \<in> set (entries t) \<Longrightarrow> key (findMinNode t) \<le> fst p"
    and "\<And>p. p \<in> set (entries t) \<Longrightarrow> fst p = key (findMinNode t) \<Longrightarrow>
           p = (key (findMinNode t), val (findMinNode t))"
proof -
  obtain rest where E: "entries t = (key (findMinNode t), val (findMinNode t)) # rest"
    using findMinNode_entries [OF assms(1)] by blast
  show "(key (findMinNode t), val (findMinNode t)) \<in> set (entries t)"
    by (simp add: E)
  have S: "\<forall>q\<in>set rest. key (findMinNode t) < fst q"
    using assms(2) by (simp add: bst_def increasing_def E)
  show "\<And>p. p \<in> set (entries t) \<Longrightarrow> key (findMinNode t) \<le> fst p"
    using S by (auto simp: E)
  show "\<And>p. p \<in> set (entries t) \<Longrightarrow> fst p = key (findMinNode t) \<Longrightarrow>
           p = (key (findMinNode t), val (findMinNode t))"
    using S by (auto simp: E)
qed

lemma entries_removeNode_Node:
  "entries (removeNode (Node k' v' h l r) k) =
     (if k < k' then entries (removeNode l k) @ (k', v') # entries r
      else if k' < k then entries l @ (k', v') # entries (removeNode r k)
      else if l = Null \<or> r = Null then entries l @ entries r
      else entries l @ (key (findMinNode r), val (findMinNode r))
             # entries (removeNode r (key (findMinNode r))))"
  by (cases l; cases r) (simp_all add: Let_def del: findMinNode.simps)

declare removeNode.simps(2) [simp del]

lemma keySet_removeNode_subset: "keySet (removeNode t k) \<subseteq> keySet t"
proof (induction t arbitrary: k)
  case Null
  then show ?case by simp
next
  case (Node k' v' h l r)
  have M: "r \<noteq> Null \<Longrightarrow> key (findMinNode r) \<in> keySet r"
    using findMinNode_entries [of r] by (auto simp: keySet_def)
  have U: "keySet (removeNode (Node k' v' h l r) k) =
     (if k < k' then insert k' (keySet (removeNode l k) \<union> keySet r)
      else if k' < k then insert k' (keySet l \<union> keySet (removeNode r k))
      else if l = Null \<or> r = Null then keySet l \<union> keySet r
      else insert (key (findMinNode r))
            (keySet l \<union> keySet (removeNode r (key (findMinNode r)))))"
    unfolding keySet_def entries_removeNode_Node by (simp add: image_Un)
  show ?case
    unfolding U
    using Node.IH(1) [of k] Node.IH(2) [of k] Node.IH(2) [of "key (findMinNode r)"] M
    by (auto simp del: findMinNode.simps)
qed

lemma set_entries_removeNode:
  "bst t \<Longrightarrow>
     set (entries (removeNode t k)) = {p \<in> set (entries t). fst p \<noteq> k}
     \<and> bst (removeNode t k)"
proof (induction t arbitrary: k)
  case Null
  then show ?case by simp
next
  case (Node k' v' h l r)
  have L: "\<And>p. p \<in> set (entries l) \<Longrightarrow> fst p < k'"
    using Node.prems by (auto simp: keySet_def)
  have R: "\<And>p. p \<in> set (entries r) \<Longrightarrow> k' < fst p"
    using Node.prems by (auto simp: keySet_def)
  have bl: "bst l" and br: "bst r" using Node.prems by simp_all
  note IHl = Node.IH(1) [OF bl]
  note IHr = Node.IH(2) [OF br]
  have KL: "\<And>k. keySet (removeNode l k) \<subseteq> keySet l"
    and KR: "\<And>k. keySet (removeNode r k) \<subseteq> keySet r"
    by (rule keySet_removeNode_subset)+
  consider (lt) "k < k'" | (gt) "k' < k" | (eq) "k = k'" by linarith
  then show ?case
  proof cases
    case lt
    have "set (entries (removeNode (Node k' v' h l r) k))
            = set (entries (removeNode l k)) \<union> {(k', v')} \<union> set (entries r)"
      using lt by (simp add: entries_removeNode_Node)
    also have "\<dots> = {p \<in> set (entries (Node k' v' h l r)). fst p \<noteq> k}"
      using lt L R IHl [of k] by fastforce
    finally have 1: "set (entries (removeNode (Node k' v' h l r) k))
            = {p \<in> set (entries (Node k' v' h l r)). fst p \<noteq> k}" .
    have "bst (Node k' v' 0 (removeNode l k) r)"
      using IHl [of k] KL [of k] Node.prems by auto
    then have 2: "bst (removeNode (Node k' v' h l r) k)"
      unfolding bst_def using lt by (simp add: entries_removeNode_Node)
    show ?thesis using 1 2 by blast
  next
    case gt
    have "set (entries (removeNode (Node k' v' h l r) k))
            = set (entries l) \<union> {(k', v')} \<union> set (entries (removeNode r k))"
      using gt by (simp add: entries_removeNode_Node)
    also have "\<dots> = {p \<in> set (entries (Node k' v' h l r)). fst p \<noteq> k}"
      using gt L R IHr [of k] by fastforce
    finally have 1: "set (entries (removeNode (Node k' v' h l r) k))
            = {p \<in> set (entries (Node k' v' h l r)). fst p \<noteq> k}" .
    have "bst (Node k' v' 0 l (removeNode r k))"
      using IHr [of k] KR [of k] Node.prems by auto
    then have 2: "bst (removeNode (Node k' v' h l r) k)"
      unfolding bst_def using gt by (simp add: entries_removeNode_Node)
    show ?thesis using 1 2 by blast
  next
    case eq
    show ?thesis
    proof (cases "l = Null \<or> r = Null")
      case True
      have E: "entries (removeNode (Node k' v' h l r) k) = entries l @ entries r"
        using eq True by (simp add: entries_removeNode_Node)
      have 1: "set (entries (removeNode (Node k' v' h l r) k))
            = {p \<in> set (entries (Node k' v' h l r)). fst p \<noteq> k}"
        unfolding E using eq L R by fastforce
      have "increasing (entries l @ entries r)"
        using True bl br by (auto simp: bst_def)
      then have 2: "bst (removeNode (Node k' v' h l r) k)"
        unfolding bst_def E .
      show ?thesis using 1 2 by blast
    next
      case False
      then have rn: "r \<noteq> Null" by simp
      let ?m = "findMinNode r"
      note M = findMinNode_least [OF rn br]
      have E: "entries (removeNode (Node k' v' h l r) k)
                 = entries l @ (key ?m, val ?m) # entries (removeNode r (key ?m))"
        using eq False by (simp add: entries_removeNode_Node)
      have S: "set (entries (removeNode r (key ?m))) = {p \<in> set (entries r). fst p \<noteq> key ?m}"
        using IHr [of "key ?m"] by simp
      have X: "insert (key ?m, val ?m) {p \<in> set (entries r). fst p \<noteq> key ?m} = set (entries r)"
        using M(1) M(3) by blast
      have "set (entries l @ (key ?m, val ?m) # entries (removeNode r (key ?m)))
               = set (entries l) \<union> insert (key ?m, val ?m) (set (entries (removeNode r (key ?m))))"
        by simp
      also have "\<dots> = set (entries l) \<union> set (entries r)"
        by (simp only: S X)
      also have "\<dots> = {p \<in> set (entries (Node k' v' h l r)). fst p \<noteq> k}"
        using eq L R by fastforce
      finally have 1: "set (entries (removeNode (Node k' v' h l r) k))
            = {p \<in> set (entries (Node k' v' h l r)). fst p \<noteq> k}"
        unfolding E .
      have G: "\<forall>x\<in>keySet (removeNode r (key ?m)). key ?m < x"
      proof
        fix x assume "x \<in> keySet (removeNode r (key ?m))"
        then obtain p where p: "p \<in> set (entries (removeNode r (key ?m)))" "fst p = x"
          by (auto simp: keySet_def)
        then have "p \<in> set (entries r)" "fst p \<noteq> key ?m" using S by auto
        then show "key ?m < x" using M(2) [of p] p(2) by simp
      qed
      have Lm: "\<forall>x\<in>keySet l. x < key ?m"
        using L R [OF M(1)] by (fastforce simp: keySet_def)
      have "bst (Node (key ?m) (val ?m) 0 l (removeNode r (key ?m)))"
        using bl IHr [of "key ?m"] G Lm by simp
      then have 2: "bst (removeNode (Node k' v' h l r) k)"
        unfolding bst_def E by simp
      show ?thesis using 1 2 by blast
    qed
  qed
qed

lemma findNode_entry:
  "findNode t k \<noteq> Null \<Longrightarrow>
     key (findNode t k) = k \<and> (k, val (findNode t k)) \<in> set (entries t)"
  by (induction t) (auto split: if_splits)

lemma findNode_Null_iff: "bst t \<Longrightarrow> findNode t k = Null \<longleftrightarrow> k \<notin> keySet t"
  by (induction t) auto

lemma increasing_unique_value:
  "increasing ps \<Longrightarrow> (k, v) \<in> set ps \<Longrightarrow> (k, w) \<in> set ps \<Longrightarrow> v = w"
  unfolding increasing_def
  by (induction ps) (auto simp: rev_image_eqI)

lemma entries_assignValue:
  "bst t \<Longrightarrow>
     entries (assignValue t k v) = map (\<lambda>p. if fst p = k then (k, v) else p) (entries t)"
proof (induction t)
  case Null
  then show ?case by simp
next
  case (Node k' v' h l r)
  have L: "\<And>p. p \<in> set (entries l) \<Longrightarrow> fst p < k'"
    using Node.prems by (auto simp: keySet_def)
  have R: "\<And>p. p \<in> set (entries r) \<Longrightarrow> k' < fst p"
    using Node.prems by (auto simp: keySet_def)
  have idl: "k' \<le> k \<Longrightarrow> map (\<lambda>p. if fst p = k then (k, v) else p) (entries l) = entries l"
    using L by (fastforce intro: map_idI)
  have idr: "k \<le> k' \<Longrightarrow> map (\<lambda>p. if fst p = k then (k, v) else p) (entries r) = entries r"
    using R by (fastforce intro: map_idI)
  show ?case
    using Node idl idr by auto
qed

lemma findLessThan_spec:
  "bst t \<Longrightarrow>
     (if \<exists>x\<in>keySet t. x < k
      then findLessThan t k acc \<noteq> Null
           \<and> (key (findLessThan t k acc), val (findLessThan t k acc)) \<in> set (entries t)
           \<and> key (findLessThan t k acc) < k
           \<and> (\<forall>x\<in>keySet t. x < k \<longrightarrow> x \<le> key (findLessThan t k acc))
      else findLessThan t k acc = acc)"
proof (induction t arbitrary: acc)
  case Null
  then show ?case by simp
next
  case (Node k' v' h l r)
  have bl: "bst l" and br: "bst r"
    and L: "\<forall>x\<in>keySet l. x < k'" and R: "\<forall>x\<in>keySet r. k' < x"
    using Node.prems by simp_all
  show ?case
  proof (cases "k' \<ge> k")
    case True
    have E: "findLessThan (Node k' v' h l r) k acc = findLessThan l k acc"
      using True by simp
    have C: "(\<exists>x\<in>keySet (Node k' v' h l r). x < k) \<longleftrightarrow> (\<exists>x\<in>keySet l. x < k)"
      using True R by fastforce
    show ?thesis
      unfolding E C using Node.IH(1) [OF bl, of acc] True R
      by (auto split: if_splits)
  next
    case False
    let ?n = "Node k' v' h l r"
    have E: "findLessThan ?n k acc = findLessThan r k ?n"
      using False by simp
    have C: "\<exists>x\<in>keySet ?n. x < k" using False by auto
    show ?thesis
    proof (cases "\<exists>x\<in>keySet r. x < k")
      case True
      let ?m = "findLessThan r k ?n"
      from Node.IH(2) [OF br, of ?n] True
      have m: "?m \<noteq> Null" "(key ?m, val ?m) \<in> set (entries r)" "key ?m < k"
        "\<forall>x\<in>keySet r. x < k \<longrightarrow> x \<le> key ?m"
        by simp_all
      have "key ?m \<in> keySet r" using m(2) by (force simp: keySet_def)
      then have "k' < key ?m" using R by blast
      then have "\<forall>x\<in>keySet ?n. x < k \<longrightarrow> x \<le> key ?m"
        using m(4) L by fastforce
      then show ?thesis
        unfolding E using C m by simp
    next
      case nr: False
      from Node.IH(2) [OF br, of ?n] nr
      have m: "findLessThan r k ?n = ?n" by simp
      have "\<forall>x\<in>keySet ?n. x < k \<longrightarrow> x \<le> k'"
        using nr L by fastforce
      then show ?thesis
        unfolding E m using C False by simp
    qed
  qed
qed

lemma findGreaterThan_spec:
  "bst t \<Longrightarrow>
     (if \<exists>x\<in>keySet t. k < x
      then findGreaterThan t k acc \<noteq> Null
           \<and> (key (findGreaterThan t k acc), val (findGreaterThan t k acc)) \<in> set (entries t)
           \<and> k < key (findGreaterThan t k acc)
           \<and> (\<forall>x\<in>keySet t. k < x \<longrightarrow> key (findGreaterThan t k acc) \<le> x)
      else findGreaterThan t k acc = acc)"
proof (induction t arbitrary: acc)
  case Null
  then show ?case by simp
next
  case (Node k' v' h l r)
  have bl: "bst l" and br: "bst r"
    and L: "\<forall>x\<in>keySet l. x < k'" and R: "\<forall>x\<in>keySet r. k' < x"
    using Node.prems by simp_all
  show ?case
  proof (cases "k' \<le> k")
    case True
    have E: "findGreaterThan (Node k' v' h l r) k acc = findGreaterThan r k acc"
      using True by simp
    have C: "(\<exists>x\<in>keySet (Node k' v' h l r). k < x) \<longleftrightarrow> (\<exists>x\<in>keySet r. k < x)"
      using True L by fastforce
    show ?thesis
      unfolding E C using Node.IH(2) [OF br, of acc] True L
      by (auto split: if_splits)
  next
    case False
    let ?n = "Node k' v' h l r"
    have E: "findGreaterThan ?n k acc = findGreaterThan l k ?n"
      using False by simp
    have C: "\<exists>x\<in>keySet ?n. k < x" using False by auto
    show ?thesis
    proof (cases "\<exists>x\<in>keySet l. k < x")
      case True
      let ?m = "findGreaterThan l k ?n"
      from Node.IH(1) [OF bl, of ?n] True
      have m: "?m \<noteq> Null" "(key ?m, val ?m) \<in> set (entries l)" "k < key ?m"
        "\<forall>x\<in>keySet l. k < x \<longrightarrow> key ?m \<le> x"
        by simp_all
      have "key ?m \<in> keySet l" using m(2) by (force simp: keySet_def)
      then have "key ?m < k'" using L by blast
      then have "\<forall>x\<in>keySet ?n. k < x \<longrightarrow> key ?m \<le> x"
        using m(4) R by fastforce
      then show ?thesis
        unfolding E using C m by simp
    next
      case nl: False
      from Node.IH(1) [OF bl, of ?n] nl
      have m: "findGreaterThan l k ?n = ?n" by simp
      have "\<forall>x\<in>keySet ?n. k < x \<longrightarrow> k' \<le> x"
        using nl R by fastforce
      then show ?thesis
        unfolding E m using C False by simp
    qed
  qed
qed

lemma collectKeysInRange_keysIn:
  "collectKeysInRange t f u acc = acc @ keysIn t f u"
  by (induction t arbitrary: acc) (simp_all add: Let_def)

lemma set_keysIn_subset: "set (keysIn t f u) \<subseteq> {k \<in> keySet t. f \<le> k \<and> k \<le> u}"
  by (induction t) auto

lemma set_keysIn: "bst t \<Longrightarrow> set (keysIn t f u) = {k \<in> keySet t. f \<le> k \<and> k \<le> u}"
proof (induction t)
  case Null
  then show ?case by simp
next
  case (Node k' v' h l r)
  have L: "\<forall>x\<in>keySet l. x < k'" and R: "\<forall>x\<in>keySet r. k' < x"
    using Node.prems by simp_all
  have l: "set (keysIn l f u) = {k \<in> keySet l. f \<le> k \<and> k \<le> u}"
    and r: "set (keysIn r f u) = {k \<in> keySet r. f \<le> k \<and> k \<le> u}"
    using Node by simp_all
  show ?case
    using L R by (fastforce simp: l r)
qed

lemma distinct_keysIn: "bst t \<Longrightarrow> distinct (keysIn t f u)"
proof (induction t)
  case Null
  then show ?case by simp
next
  case (Node k' v' h l r)
  have L: "\<forall>x\<in>keySet l. x < k'" and R: "\<forall>x\<in>keySet r. k' < x"
    using Node.prems by simp_all
  have sl: "set (keysIn l f u) \<subseteq> keySet l" and sr: "set (keysIn r f u) \<subseteq> keySet r"
    using set_keysIn_subset by blast+
  have 1: "k' \<notin> set (keysIn l f u)" "k' \<notin> set (keysIn r f u)"
    using sl sr L R by auto
  have 2: "set (keysIn l f u) \<inter> set (keysIn r f u) = {}"
    using sl sr L R by fastforce
  show ?case using Node 1 2 by auto
qed

lemma increasing_unique:
  "increasing ps \<Longrightarrow> increasing qs \<Longrightarrow> set ps = set qs \<Longrightarrow> ps = qs"
proof (induction ps arbitrary: qs)
  case Nil
  then show ?case by simp
next
  case (Cons p ps)
  then obtain q qs' where qs: "qs = q # qs'" by (cases qs) auto
  have P: "\<forall>x\<in>set ps. fst p < fst x" and Q: "\<forall>x\<in>set qs'. fst q < fst x"
    using Cons.prems(1,2) by (auto simp: increasing_def qs)
  have "p \<in> set (q # qs')" "q \<in> set (p # ps)"
    using Cons.prems(3) by (auto simp: qs)
  then have pq: "p = q" using P Q by fastforce
  have "p \<notin> set ps" "q \<notin> set qs'" using P Q by auto
  then have "set ps = set qs'" using Cons.prems(3) pq by (auto simp: qs)
  moreover have "increasing ps" "increasing qs'"
    using Cons.prems(1,2) by (auto simp: increasing_def qs)
  ultimately have "ps = qs'" using Cons.IH by blast
  then show ?case by (simp add: qs pq)
qed

lemma increasing_filter: "increasing ps \<Longrightarrow> increasing (filter P ps)"
  unfolding increasing_def
  by (induction ps) auto

lemma entries_removeNode:
  "bst t \<Longrightarrow> entries (removeNode t k) = filter (\<lambda>p. fst p \<noteq> k) (entries t)"
proof (rule increasing_unique)
  assume b: "bst t"
  show "increasing (entries (removeNode t k))"
    using set_entries_removeNode [OF b, of k] by (simp add: bst_def)
  show "increasing (filter (\<lambda>p. fst p \<noteq> k) (entries t))"
    using b by (simp add: bst_def increasing_filter)
  show "set (entries (removeNode t k)) = set (filter (\<lambda>p. fst p \<noteq> k) (entries t))"
    using set_entries_removeNode [OF b, of k] by simp
qed

section \<open>The tree stays balanced\<close>

lemma balance_id: "avl t \<Longrightarrow> balance t = t"
  by (cases t) (auto simp: balance.simps)

lemma avl_balance_left:
  assumes "avl l" "avl r" "getHeight l = getHeight r + 2"
  shows "avl (balance (Node k v (1 + max (getHeight l) (getHeight r)) l r))
         \<and> getHeight (balance (Node k v (1 + max (getHeight l) (getHeight r)) l r))
             \<in> {getHeight r + 2, getHeight r + 3}"
proof -
  obtain lk lv lh ll lr where l: "l = Node lk lv lh ll lr"
    using assms(3) by (cases l) auto
  show ?thesis
  proof (cases "getBalanceFactor l < 0")
    case False
    then show ?thesis
      using assms by (auto simp: l balance.simps Let_def max_def)
  next
    case True
    then obtain mk mv mh ml mr where lr: "lr = Node mk mv mh ml mr"
      by (cases lr) (auto simp: l)
    show ?thesis
      using assms True by (auto simp: l lr balance.simps Let_def max_def)
  qed
qed

lemma avl_balance_right:
  assumes "avl l" "avl r" "getHeight r = getHeight l + 2"
  shows "avl (balance (Node k v (1 + max (getHeight l) (getHeight r)) l r))
         \<and> getHeight (balance (Node k v (1 + max (getHeight l) (getHeight r)) l r))
             \<in> {getHeight l + 2, getHeight l + 3}"
proof -
  obtain rk rv rh rl rr where r: "r = Node rk rv rh rl rr"
    using assms(3) by (cases r) auto
  show ?thesis
  proof (cases "getBalanceFactor r > 0")
    case False
    then show ?thesis
      using assms by (auto simp: r balance.simps Let_def max_def)
  next
    case True
    then obtain mk mv mh ml mr where rl: "rl = Node mk mv mh ml mr"
      by (cases rl) (auto simp: r)
    show ?thesis
      using assms True by (auto simp: r rl balance.simps Let_def max_def)
  qed
qed

lemma avl_balance_near:
  assumes "avl l" "avl r" "getHeight l \<le> getHeight r + 1" "getHeight r \<le> getHeight l + 1"
  shows "balance (Node k v (1 + max (getHeight l) (getHeight r)) l r)
           = Node k v (1 + max (getHeight l) (getHeight r)) l r"
    and "avl (Node k v (1 + max (getHeight l) (getHeight r)) l r)"
  using assms by (auto simp: balance.simps)

lemma avl_balance:
  assumes "avl l" "avl r" "getHeight l \<le> getHeight r + 2" "getHeight r \<le> getHeight l + 2"
  shows "avl (balance (Node k v (1 + max (getHeight l) (getHeight r)) l r))"
    and "getHeight (balance (Node k v (1 + max (getHeight l) (getHeight r)) l r))
           = 1 + max (getHeight l) (getHeight r)
         \<or> (getHeight (balance (Node k v (1 + max (getHeight l) (getHeight r)) l r))
               = max (getHeight l) (getHeight r)
             \<and> (getHeight l = getHeight r + 2 \<or> getHeight r = getHeight l + 2))"
proof -
  consider (left) "getHeight l = getHeight r + 2" | (right) "getHeight r = getHeight l + 2"
    | (near) "getHeight l \<le> getHeight r + 1" "getHeight r \<le> getHeight l + 1"
    using assms(3,4) by linarith
  then have "avl (balance (Node k v (1 + max (getHeight l) (getHeight r)) l r))
    \<and> (getHeight (balance (Node k v (1 + max (getHeight l) (getHeight r)) l r))
           = 1 + max (getHeight l) (getHeight r)
         \<or> (getHeight (balance (Node k v (1 + max (getHeight l) (getHeight r)) l r))
               = max (getHeight l) (getHeight r)
             \<and> (getHeight l = getHeight r + 2 \<or> getHeight r = getHeight l + 2)))"
  proof cases
    case left
    then show ?thesis
      using avl_balance_left [OF assms(1,2) left, of k v] by (auto simp: max_def)
  next
    case right
    then show ?thesis
      using avl_balance_right [OF assms(1,2) right, of k v] by (auto simp: max_def)
  next
    case near
    then show ?thesis
      using avl_balance_near [OF assms(1,2) near, of k v] by simp
  qed
  then show "avl (balance (Node k v (1 + max (getHeight l) (getHeight r)) l r))"
    and "getHeight (balance (Node k v (1 + max (getHeight l) (getHeight r)) l r))
           = 1 + max (getHeight l) (getHeight r)
         \<or> (getHeight (balance (Node k v (1 + max (getHeight l) (getHeight r)) l r))
               = max (getHeight l) (getHeight r)
             \<and> (getHeight l = getHeight r + 2 \<or> getHeight r = getHeight l + 2))"
    by blast+
qed

lemma avl_Node_D:
  "avl (Node k v h l r) \<Longrightarrow>
     avl l \<and> avl r \<and> h = 1 + max (getHeight l) (getHeight r)
     \<and> getHeight l \<le> getHeight r + 1 \<and> getHeight r \<le> getHeight l + 1"
  by auto

lemma avl_insertNode:
  "avl t \<Longrightarrow>
     avl (insertNode t k v)
     \<and> getHeight t \<le> getHeight (insertNode t k v)
     \<and> getHeight (insertNode t k v) \<le> getHeight t + 1"
proof (induction t)
  case Null
  then show ?case by simp
next
  case (Node k' v' h l r)
  note D = avl_Node_D [OF Node.prems]
  consider (lt) "k < k'" | (gt) "k' < k" | (eq) "k = k'" by linarith
  then show ?case
  proof cases
    case lt
    let ?l = "insertNode l k v"
    have E: "insertNode (Node k' v' h l r) k v
               = balance (Node k' v' (1 + max (getHeight ?l) (getHeight r)) ?l r)"
      using lt by (simp add: Let_def)
    have I: "avl ?l" "getHeight l \<le> getHeight ?l" "getHeight ?l \<le> getHeight l + 1"
      using Node.IH(1) D by simp_all
    have B: "getHeight ?l \<le> getHeight r + 2" "getHeight r \<le> getHeight ?l + 2"
      using I D by linarith+
    show ?thesis
      unfolding E
      using avl_balance [OF I(1) _ B, of k' v'] D I by (auto simp: max_def)
  next
    case gt
    let ?r = "insertNode r k v"
    have E: "insertNode (Node k' v' h l r) k v
               = balance (Node k' v' (1 + max (getHeight l) (getHeight ?r)) l ?r)"
      using gt by (simp add: Let_def)
    have I: "avl ?r" "getHeight r \<le> getHeight ?r" "getHeight ?r \<le> getHeight r + 1"
      using Node.IH(2) D by simp_all
    have B: "getHeight l \<le> getHeight ?r + 2" "getHeight ?r \<le> getHeight l + 2"
      using I D by linarith+
    show ?thesis
      unfolding E
      using avl_balance [OF _ I(1) B, of k' v'] D I by (auto simp: max_def)
  next
    case eq
    then show ?thesis using Node.prems by auto
  qed
qed

lemma avl_removeNode:
  "avl t \<Longrightarrow>
     avl (removeNode t k)
     \<and> getHeight (removeNode t k) \<le> getHeight t
     \<and> getHeight t \<le> getHeight (removeNode t k) + 1"
proof (induction t arbitrary: k)
  case Null
  then show ?case by simp
next
  case (Node k' v' h l r)
  note D = avl_Node_D [OF Node.prems]
  consider (lt) "k < k'" | (gt) "k' < k" | (leaf) "k = k'" "l = Null \<or> r = Null"
    | (two) "k = k'" "l \<noteq> Null" "r \<noteq> Null"
    by fastforce
  then show ?case
  proof cases
    case lt
    let ?l = "removeNode l k"
    have E: "removeNode (Node k' v' h l r) k
               = balance (Node k' v' (1 + max (getHeight ?l) (getHeight r)) ?l r)"
      using lt by (simp add: removeNode.simps Let_def)
    have I: "avl ?l" "getHeight ?l \<le> getHeight l" "getHeight l \<le> getHeight ?l + 1"
      using Node.IH(1) [of k] D by simp_all
    have B: "getHeight ?l \<le> getHeight r + 2" "getHeight r \<le> getHeight ?l + 2"
      using I D by linarith+
    show ?thesis
      unfolding E
      using avl_balance [OF I(1) _ B, of k' v'] D I by (auto simp: max_def)
  next
    case gt
    let ?r = "removeNode r k"
    have E: "removeNode (Node k' v' h l r) k
               = balance (Node k' v' (1 + max (getHeight l) (getHeight ?r)) l ?r)"
      using gt by (simp add: removeNode.simps Let_def)
    have I: "avl ?r" "getHeight ?r \<le> getHeight r" "getHeight r \<le> getHeight ?r + 1"
      using Node.IH(2) [of k] D by simp_all
    have B: "getHeight l \<le> getHeight ?r + 2" "getHeight ?r \<le> getHeight l + 2"
      using I D by linarith+
    show ?thesis
      unfolding E
      using avl_balance [OF _ I(1) B, of k' v'] D I by (auto simp: max_def)
  next
    case leaf
    let ?c = "if l \<noteq> Null then l else r"
    have c: "avl ?c" using D by simp
    have hc: "h = 1 + getHeight ?c" using D leaf(2) by auto
    have E: "removeNode (Node k' v' h l r) k = ?c"
    proof (cases ?c)
      case Null
      then show ?thesis using leaf by (simp add: removeNode.simps)
    next
      case (Node ck cv ch cl cr)
      have "avl (Node ck cv ch cl cr)" using c Node by simp
      then have "balance (Node ck cv (1 + max (getHeight cl) (getHeight cr)) cl cr)
                   = Node ck cv ch cl cr"
        using balance_id [of "Node ck cv ch cl cr"] by simp
      then show ?thesis using leaf Node by (simp add: removeNode.simps)
    qed
    show ?thesis unfolding E using c hc by simp
  next
    case two
    let ?m = "findMinNode r"
    let ?r = "removeNode r (key ?m)"
    have E: "removeNode (Node k' v' h l r) k
               = balance (Node (key ?m) (val ?m) (1 + max (getHeight l) (getHeight ?r)) l ?r)"
      using two by (simp add: removeNode.simps Let_def)
    have I: "avl ?r" "getHeight ?r \<le> getHeight r" "getHeight r \<le> getHeight ?r + 1"
      using Node.IH(2) [of "key ?m"] D by simp_all
    have B: "getHeight l \<le> getHeight ?r + 2" "getHeight ?r \<le> getHeight l + 2"
      using I D by linarith+
    show ?thesis
      unfolding E
      using avl_balance [OF _ I(1) B, of "key ?m" "val ?m"] D I by (auto simp: max_def)
  qed
qed

section \<open>The effective intensity of a list of pairs\<close>

lemma increasing_Cons:
  "increasing (p # ps) \<longleftrightarrow> (\<forall>q\<in>set ps. fst p < fst q) \<and> increasing ps"
  by (auto simp: increasing_def)

lemma increasing_last:
  "increasing ps \<Longrightarrow> p \<in> set ps \<Longrightarrow> fst p \<le> fst (last ps)"
proof (induction ps)
  case Nil
  then show ?case by simp
next
  case (Cons q ps)
  show ?case
  proof (cases "ps = []")
    case True
    then show ?thesis using Cons.prems by simp
  next
    case False
    then have l: "last ps \<in> set ps" by simp
    show ?thesis
    proof (cases "p = q")
      case True
      then show ?thesis using Cons.prems(1) l False by (auto simp: increasing_Cons less_imp_le)
    next
      case neq: False
      then show ?thesis using Cons False by (auto simp: increasing_Cons)
    qed
  qed
qed

lemma effective_none: "\<forall>p\<in>set ps. x < fst p \<Longrightarrow> effective ps x = Finite 0"
proof -
  assume "\<forall>p\<in>set ps. x < fst p"
  then have "filter (\<lambda>p. fst p \<le> x) ps = []"
    by (auto simp: filter_empty_conv)
  then show ?thesis by (simp add: effective_def)
qed

lemma effective_governs:
  assumes "increasing ps" "governs ps x k v"
  shows "effective ps x = v"
proof -
  let ?qs = "filter (\<lambda>p. fst p \<le> x) ps"
  have in_qs: "(k, v) \<in> set ?qs" using assms(2) by (simp add: governs_def)
  then have ne: "?qs \<noteq> []" by (metis empty_iff empty_set)
  have inc: "increasing ?qs" using assms(1) by (rule increasing_filter)
  have l: "last ?qs \<in> set ?qs" using ne by (rule last_in_set)
  then have "fst (last ?qs) \<le> k" using assms(2) by (simp add: governs_def)
  moreover have "k \<le> fst (last ?qs)" using increasing_last [OF inc in_qs] by simp
  ultimately have "fst (last ?qs) = k" by simp
  then have "(k, snd (last ?qs)) \<in> set ?qs" using l by (metis prod.collapse)
  then have "snd (last ?qs) = v" using increasing_unique_value [OF inc _ in_qs] by blast
  moreover have "effective ps x = snd (last ?qs)"
    using ne by (cases ?qs) (simp_all add: effective_def)
  ultimately show ?thesis by simp
qed

lemma governs_cases:
  "(\<forall>p\<in>set ps. x < fst p) \<or> (\<exists>k v. governs ps x k v)"
proof (cases "filter (\<lambda>p. fst p \<le> x) ps = []")
  case True
  then show ?thesis by (auto simp: filter_empty_conv not_le)
next
  case False
  let ?K = "fst ` set (filter (\<lambda>p. fst p \<le> x) ps)"
  have fin: "finite ?K" by simp
  have ne: "?K \<noteq> {}" using False by (simp del: set_filter)
  have "Max ?K \<in> ?K" using Max_in [OF fin ne] .
  then obtain v where v: "(Max ?K, v) \<in> set ps" "Max ?K \<le> x" by auto
  have "\<forall>p\<in>set ps. fst p \<le> x \<longrightarrow> fst p \<le> Max ?K"
    using fin by (auto intro!: Max_ge)
  then have "governs ps x (Max ?K) v" using v by (simp add: governs_def)
  then show ?thesis by blast
qed

lemma effective_cong:
  assumes "increasing ps" "increasing qs"
    "{p \<in> set ps. fst p \<le> x} = {p \<in> set qs. fst p \<le> x}"
  shows "effective ps x = effective qs x"
proof -
  have "filter (\<lambda>p. fst p \<le> x) ps = filter (\<lambda>p. fst p \<le> x) qs"
    using assms by (intro increasing_unique increasing_filter) simp_all
  then show ?thesis by (simp add: effective_def)
qed

section \<open>Reachable trees\<close>

lemma getHeight_assignValue [simp]: "getHeight (assignValue t k v) = getHeight t"
  by (cases t) simp_all

lemma avl_assignValue [simp]: "avl (assignValue t k v) = avl t"
  by (induction t) auto

lemma skeleton_assignValue: "skeleton (assignValue t k v) = skeleton t"
  by (induction t) auto

lemma increasing_map_keys:
  "(\<And>p. fst (g p) = fst p) \<Longrightarrow> increasing (map g ps) = increasing ps"
proof -
  assume "\<And>p. fst (g p) = fst p"
  then have "map fst (map g ps) = map fst ps" by (induction ps) auto
  then show ?thesis unfolding increasing_def by (simp only:)
qed

lemma bst_assignValue: "bst t \<Longrightarrow> bst (assignValue t k v)"
  by (simp add: bst_def entries_assignValue [unfolded bst_def] increasing_map_keys)

lemma insertNode_existing:
  "avl t \<Longrightarrow> findNode t k \<noteq> Null \<Longrightarrow> insertNode t k v = assignValue t k v"
proof (induction t)
  case Null
  then show ?case by simp
next
  case (Node k' v' h l r)
  note D = avl_Node_D [OF Node.prems(1)]
  consider (lt) "k < k'" | (gt) "k' < k" | (eq) "k = k'" by linarith
  then show ?case
  proof cases
    case lt
    then have "findNode l k \<noteq> Null" using Node.prems(2) by simp
    then have I: "insertNode l k v = assignValue l k v" using Node.IH(1) D by simp
    have "avl (Node k' v' h (assignValue l k v) r)" using Node.prems(1) by simp
    then have "balance (Node k' v' h (assignValue l k v) r) = Node k' v' h (assignValue l k v) r"
      by (rule balance_id)
    then show ?thesis using lt I D by (simp add: Let_def)
  next
    case gt
    then have "findNode r k \<noteq> Null" using Node.prems(2) by simp
    then have I: "insertNode r k v = assignValue r k v" using Node.IH(2) D by simp
    have "avl (Node k' v' h l (assignValue r k v))" using Node.prems(1) by simp
    then have "balance (Node k' v' h l (assignValue r k v)) = Node k' v' h l (assignValue r k v)"
      by (rule balance_id)
    then show ?thesis using gt I D by (simp add: Let_def)
  next
    case eq
    then show ?thesis by simp
  qed
qed

lemma root_simps [simp]:
  "root (AVLTree_insert T k v) = insertNode (root T) k v"
  "root (AVLTree_remove T k) = removeNode (root T) k"
  "root AVLTree_new = Null"
  by (simp_all add: AVLTree_insert_def AVLTree_remove_def AVLTree_new_def)

lemma root_update:
  "root (AVLTree_update T k v) = assignValue (root T) k v"
proof -
  have "findNode t k = Null \<Longrightarrow> assignValue t k v = t" for t
    by (induction t) (auto split: if_splits)
  then show ?thesis
    by (auto simp: AVLTree_update_def AVLTree_find_def Let_def)
qed

lemma reachable_invariants:
  "bst (root (runTreeOps ops)) \<and> avl (root (runTreeOps ops))"
proof (induction ops rule: rev_induct)
  case Nil
  then show ?case by (simp add: runTreeOps_def)
next
  case (snoc x ops)
  let ?T = "runTreeOps ops"
  have E: "runTreeOps (ops @ [x]) = applyTreeOp ?T x"
    by (simp add: runTreeOps_def)
  have b: "bst (root ?T)" and a: "avl (root ?T)" using snoc by simp_all
  show ?case
  proof (cases x)
    case (Insert k v)
    then show ?thesis
      unfolding E using bst_insertNode [OF b] avl_insertNode [OF a] by simp
  next
    case (Update k v)
    then show ?thesis
      unfolding E using bst_assignValue [OF b] a by (simp add: root_update)
  next
    case (Remove k)
    then show ?thesis
      unfolding E using set_entries_removeNode [OF b] avl_removeNode [OF a] by simp
  qed
qed

lemma inOrderTraversal_entries: "inOrderTraversal T = entries (root T)"
  by (simp add: inOrderTraversal_def inOrder_entries)

lemma getKeysInRange_keysIn: "getKeysInRange T f u = keysIn (root T) f u"
  by (simp add: getKeysInRange_def collectKeysInRange_keysIn)

section \<open>Queries on the tree\<close>

lemma nodeEntry_Some: "n \<noteq> Null \<Longrightarrow> nodeEntry n = Some (key n, val n)"
  by (cases n) simp_all

lemma filter_key_eq:
  assumes "increasing ps" "(k, v) \<in> set ps"
  shows "filter (\<lambda>p. fst p = k) ps = [(k, v)]"
proof (rule increasing_unique)
  show "increasing (filter (\<lambda>p. fst p = k) ps)"
    using assms(1) by (rule increasing_filter)
  show "increasing [(k, v)]" by (simp add: increasing_def)
  have U: "p = (k, v)" if "p \<in> set ps" "fst p = k" for p
  proof -
    have e: "p = (k, snd p)" using that(2) by (simp add: prod_eq_iff)
    then have "(k, snd p) \<in> set ps" using that(1) by simp
    then have "snd p = v" using assms(1) assms(2) increasing_unique_value by blast
    then show ?thesis using e by simp
  qed
  show "set (filter (\<lambda>p. fst p = k) ps) = set [(k, v)]"
  proof (rule set_eqI)
    fix p
    show "p \<in> set (filter (\<lambda>p. fst p = k) ps) \<longleftrightarrow> p \<in> set [(k, v)]"
      using U [of p] assms(2) by (cases "p = (k, v)") auto
  qed
qed

lemma increasing_last_eq:
  assumes "increasing qs" "p \<in> set qs" "\<forall>q\<in>set qs. fst q \<le> fst p"
  shows "last qs = p"
proof -
  have ne: "qs \<noteq> []" using assms(2) by auto
  then have l: "last qs \<in> set qs" by (rule last_in_set)
  have "fst (last qs) = fst p"
    using increasing_last [OF assms(1,2)] assms(3) l by fastforce
  then have "(fst p, snd (last qs)) \<in> set qs" using l by (metis prod.collapse)
  moreover have "(fst p, snd p) \<in> set qs" using assms(2) by simp
  ultimately have "snd (last qs) = snd p"
    using increasing_unique_value [OF assms(1)] by blast
  then show ?thesis using \<open>fst (last qs) = fst p\<close> by (simp add: prod_eq_iff)
qed

lemma increasing_hd_eq:
  assumes "increasing qs" "p \<in> set qs" "\<forall>q\<in>set qs. fst p \<le> fst q"
  shows "hd qs = p"
proof (cases qs)
  case Nil
  then show ?thesis using assms(2) by simp
next
  case (Cons q qs')
  have "p = q"
  proof (rule ccontr)
    assume "p \<noteq> q"
    then have "p \<in> set qs'" using assms(2) Cons by simp
    then have "fst q < fst p" using assms(1) Cons by (simp add: increasing_Cons)
    moreover have "fst p \<le> fst q" using assms(3) Cons by simp
    ultimately show False by simp
  qed
  then show ?thesis using Cons by simp
qed

lemma findLessThan_last:
  assumes "bst t"
  shows "(filter (\<lambda>p. fst p < k) (entries t) = [] \<longrightarrow> findLessThan t k Null = Null)
       \<and> (filter (\<lambda>p. fst p < k) (entries t) \<noteq> [] \<longrightarrow>
            findLessThan t k Null \<noteq> Null
            \<and> last (filter (\<lambda>p. fst p < k) (entries t))
                = (key (findLessThan t k Null), val (findLessThan t k Null)))"
proof (cases "\<exists>x\<in>keySet t. x < k")
  case False
  then have "filter (\<lambda>p. fst p < k) (entries t) = []"
    by (auto simp: filter_empty_conv keySet_def)
  moreover have "findLessThan t k Null = Null"
    using findLessThan_spec [OF assms, of k Null] False by simp
  ultimately show ?thesis by simp
next
  case True
  let ?n = "findLessThan t k Null"
  let ?qs = "filter (\<lambda>p. fst p < k) (entries t)"
  from findLessThan_spec [OF assms, of k Null] True
  have n: "?n \<noteq> Null" "(key ?n, val ?n) \<in> set (entries t)" "key ?n < k"
    "\<forall>x\<in>keySet t. x < k \<longrightarrow> x \<le> key ?n"
    by simp_all
  have in_qs: "(key ?n, val ?n) \<in> set ?qs" using n(2,3) by simp
  then have ne: "?qs \<noteq> []" by (metis empty_iff empty_set)
  have "\<forall>q\<in>set ?qs. fst q \<le> fst (key ?n, val ?n)"
    using n(4) by (auto simp: keySet_def)
  then have "last ?qs = (key ?n, val ?n)"
    using increasing_last_eq [OF increasing_filter in_qs] assms by (simp add: bst_def)
  then show ?thesis using ne n(1) by simp
qed

lemma findGreaterThan_hd:
  assumes "bst t"
  shows "(filter (\<lambda>p. k < fst p) (entries t) = [] \<longrightarrow> findGreaterThan t k Null = Null)
       \<and> (filter (\<lambda>p. k < fst p) (entries t) \<noteq> [] \<longrightarrow>
            findGreaterThan t k Null \<noteq> Null
            \<and> hd (filter (\<lambda>p. k < fst p) (entries t))
                = (key (findGreaterThan t k Null), val (findGreaterThan t k Null)))"
proof (cases "\<exists>x\<in>keySet t. k < x")
  case False
  then have "filter (\<lambda>p. k < fst p) (entries t) = []"
    by (auto simp: filter_empty_conv keySet_def)
  moreover have "findGreaterThan t k Null = Null"
    using findGreaterThan_spec [OF assms, of k Null] False by simp
  ultimately show ?thesis by simp
next
  case True
  let ?n = "findGreaterThan t k Null"
  let ?qs = "filter (\<lambda>p. k < fst p) (entries t)"
  from findGreaterThan_spec [OF assms, of k Null] True
  have n: "?n \<noteq> Null" "(key ?n, val ?n) \<in> set (entries t)" "k < key ?n"
    "\<forall>x\<in>keySet t. k < x \<longrightarrow> key ?n \<le> x"
    by simp_all
  have in_qs: "(key ?n, val ?n) \<in> set ?qs" using n(2,3) by simp
  then have ne: "?qs \<noteq> []" by (metis empty_iff empty_set)
  have "\<forall>q\<in>set ?qs. fst (key ?n, val ?n) \<le> fst q"
    using n(4) by (auto simp: keySet_def)
  then have "hd ?qs = (key ?n, val ?n)"
    using increasing_hd_eq [OF increasing_filter in_qs] assms by (simp add: bst_def)
  then show ?thesis using ne n(1) by simp
qed

lemma findNearest_nearestEntry:
  assumes "bst (root T)"
  shows "nodeEntry (findNearest T k) = nearestEntry (inOrderTraversal T) k"
proof (cases "findNode (root T) k = Null")
  case False
  let ?n = "findNode (root T) k"
  have e: "key ?n = k" "(k, val ?n) \<in> set (entries (root T))"
    using findNode_entry [OF False] by simp_all
  have "filter (\<lambda>p. fst p = k) (entries (root T)) = [(k, val ?n)]"
    using filter_key_eq [OF _ e(2)] assms by (simp add: bst_def)
  then have "nearestEntry (inOrderTraversal T) k = Some (k, val ?n)"
    by (simp add: nearestEntry_def inOrderTraversal_entries)
  moreover have "nodeEntry (findNearest T k) = Some (k, val ?n)"
    using False nodeEntry_Some [OF False] e(1)
    by (simp add: findNearest_def AVLTree_find_def Let_def)
  ultimately show ?thesis by simp
next
  case True
  then have "k \<notin> keySet (root T)" using findNode_Null_iff [OF assms] by simp
  then have none: "filter (\<lambda>p. fst p = k) (entries (root T)) = []"
    by (auto simp: filter_empty_conv keySet_def)
  let ?lo = "findLessThan (root T) k Null"
  let ?hi = "findGreaterThan (root T) k Null"
  let ?below = "filter (\<lambda>p. fst p < k) (entries (root T))"
  let ?above = "filter (\<lambda>p. k < fst p) (entries (root T))"
  note lo = findLessThan_last [OF assms, of k]
  note hi = findGreaterThan_hd [OF assms, of k]
  have N: "findNearest T k =
             (if ?lo = Null then ?hi else if ?hi = Null then ?lo
              else if lessNumber (doubleSub k (key ?lo)) (doubleSub (key ?hi) k) then ?lo else ?hi)"
    using True
    by (simp add: findNearest_def AVLTree_find_def AVLTree_findLessThan_def
        AVLTree_findGreaterThan_def Let_def)
  have S: "nearestEntry (inOrderTraversal T) k =
             (if ?below = [] then (if ?above = [] then None else Some (hd ?above))
              else if ?above = [] then Some (last ?below)
              else if lessNumber (doubleSub k (fst (last ?below))) (doubleSub (fst (hd ?above)) k)
                   then Some (last ?below)
              else Some (hd ?above))"
    using none by (simp add: nearestEntry_def inOrderTraversal_entries Let_def)
  show ?thesis
  proof (cases "?below = []")
    case b: True
    then have l: "?lo = Null" using lo by simp
    show ?thesis
    proof (cases "?above = []")
      case True
      then have "?hi = Null" using hi by simp
      then show ?thesis unfolding N S using b l True by simp
    next
      case False
      then have "?hi \<noteq> Null" "hd ?above = (key ?hi, val ?hi)" using hi by simp_all
      then show ?thesis unfolding N S using b l False by (simp add: nodeEntry_Some)
    qed
  next
    case b: False
    then have l: "?lo \<noteq> Null" "last ?below = (key ?lo, val ?lo)" using lo by simp_all
    show ?thesis
    proof (cases "?above = []")
      case True
      then have "?hi = Null" using hi by simp
      then show ?thesis unfolding N S using b l True by (simp add: nodeEntry_Some)
    next
      case False
      then have "?hi \<noteq> Null" "hd ?above = (key ?hi, val ?hi)" using hi by simp_all
      then show ?thesis unfolding N S using b l False by (simp add: nodeEntry_Some)
    qed
  qed
qed

lemma set_preOrderKeys: "set (preOrderKeys t) = keySet t"
  by (induction t) auto

lemma keysIn_preOrderKeys:
  "bst t \<Longrightarrow> keysIn t f u = filter (\<lambda>k. f \<le> k \<and> k \<le> u) (preOrderKeys t)"
proof (induction t)
  case Null
  then show ?case by simp
next
  case (Node k' v' h l r)
  have L: "\<forall>x\<in>keySet l. x < k'" and R: "\<forall>x\<in>keySet r. k' < x"
    using Node.prems by simp_all
  have l: "keysIn l f u = filter (\<lambda>k. f \<le> k \<and> k \<le> u) (preOrderKeys l)"
    and r: "keysIn r f u = filter (\<lambda>k. f \<le> k \<and> k \<le> u) (preOrderKeys r)"
    using Node by simp_all
  have nl: "filter (\<lambda>k. f \<le> k \<and> k \<le> u) (preOrderKeys l) = []" if "\<not> f < k'"
    using that L by (fastforce simp: filter_empty_conv set_preOrderKeys)
  have nr: "filter (\<lambda>k. f \<le> k \<and> k \<le> u) (preOrderKeys r) = []" if "\<not> k' < u"
    using that R by (fastforce simp: filter_empty_conv set_preOrderKeys)
  show ?case
  proof (cases "f < k'"; cases "k' < u")
    show "?case" if "f < k'" "k' < u" using that by (auto simp: l r)
    show "?case" if "f < k'" "\<not> k' < u" using that nr by (auto simp: l)
    show "?case" if "\<not> f < k'" "k' < u" using that nl by (auto simp: r)
    show "?case" if "\<not> f < k'" "\<not> k' < u" using that nl nr by auto
  qed
qed

lemma balance_rotations_defined:
  "(1 < getBalanceFactor (Node k v h l r) \<longrightarrow>
      l \<noteq> Null \<and> (getBalanceFactor l < 0 \<longrightarrow> right l \<noteq> Null \<and> left (rotateLeft l) \<noteq> Null))
   \<and> (getBalanceFactor (Node k v h l r) < - 1 \<longrightarrow>
      r \<noteq> Null \<and> (0 < getBalanceFactor r \<longrightarrow> left r \<noteq> Null \<and> right (rotateRight r) \<noteq> Null))"
proof -
  have L: "getBalanceFactor n < 0 \<Longrightarrow> right n \<noteq> Null \<and> left (rotateLeft n) \<noteq> Null" for n
    by (cases n rule: rotateLeft.cases) (auto simp: Let_def)
  have R: "0 < getBalanceFactor n \<Longrightarrow> left n \<noteq> Null \<and> right (rotateRight n) \<noteq> Null" for n
    by (cases n rule: rotateRight.cases) (auto simp: Let_def)
  show ?thesis
    using L [of l] R [of r] by (cases l; cases r) auto
qed

lemmas tree_eval = runTreeOps_def AVLTree_new_def AVLTree_insert_def AVLTree_remove_def
  AVLTree_update_def AVLTree_find_def AVLTree_findLessThan_def AVLTree_findGreaterThan_def
  findNearest_def findLessThanOrEqual_def getKeysInRange_def inOrderTraversal_def
  balance.simps removeNode.simps(2) Let_def doubleSub_def roundDouble_int

section \<open>The claims about the tree\<close>

text \<open>
  C4 (AVL balance invariant). After every sequence of \<open>insert\<close>, \<open>update\<close> and \<open>remove\<close>
  calls on an initially empty tree, every node's cached \<open>height\<close> is 1 + the maximum of
  its children's heights (an absent child counting 0), and every node's balance factor
  \<open>height(left) - height(right)\<close> is -1, 0 or 1: this is \<open>avl\<close> of the root.
\<close>

theorem avl_invariant_reachable: "avl (root (runTreeOps ops))"
  using reachable_invariants by blast

theorem avl_invariant_witness:
  "root (runTreeOps [Insert 10 (Finite 1), Insert 20 (Finite 2), Insert 30 (Finite 3), Remove 20])
     = Node 30 (Finite 3) 2 (Node 10 (Finite 1) 1 Null Null) Null
   \<and> avl (root (runTreeOps [Insert 10 (Finite 1), Insert 20 (Finite 2), Insert 30 (Finite 3), Remove 20]))"
  using avl_invariant_reachable [of "[Insert 10 (Finite 1), Insert 20 (Finite 2), Insert 30 (Finite 3), Remove 20]"]
  by (simp add: tree_eval)



text \<open>
  C6, counterexample. \<open>getKeysInRange(from, to)\<close> does return the stored keys between \<open>from\<close>
  and \<open>to\<close>, both ends included, but not in increasing order: \<open>_collectKeysInRange\<close>
  pushes a node's key before it visits the left subtree. After inserting 10, 20 and 30 the
  root is 20, and the range 0..40 comes back as 20, 10, 30.
\<close>

theorem getKeysInRange_not_increasing:
  "getKeysInRange (runTreeOps [Insert 10 (Finite 1), Insert 20 (Finite 2), Insert 30 (Finite 3)]) 0 40 = [20, 10, 30]
   \<and> \<not> sorted (getKeysInRange (runTreeOps [Insert 10 (Finite 1), Insert 20 (Finite 2), Insert 30 (Finite 3)]) 0 40)"
  by (simp add: tree_eval)

text \<open>
  C6, as the code has it: \<open>getKeysInRange(from, to)\<close> returns the stored keys \<open>k\<close> with
  \<open>from \<le> k \<le> to\<close> in the pre-order of the tree, every node before the keys of its left
  subtree and those before the keys of its right subtree; sorted, they are the keys of the
  in-order traversal that lie in the range.
\<close>

theorem getKeysInRange_preOrder:
  "getKeysInRange (runTreeOps ops) f u
     = filter (\<lambda>k. f \<le> k \<and> k \<le> u) (preOrderKeys (root (runTreeOps ops)))
   \<and> sort (getKeysInRange (runTreeOps ops) f u)
     = filter (\<lambda>k. f \<le> k \<and> k \<le> u) (map fst (inOrderTraversal (runTreeOps ops)))"
proof
  let ?T = "runTreeOps ops"
  have b: "bst (root ?T)" using reachable_invariants by blast
  show "getKeysInRange ?T f u = filter (\<lambda>k. f \<le> k \<and> k \<le> u) (preOrderKeys (root ?T))"
    using b by (simp add: getKeysInRange_keysIn keysIn_preOrderKeys)
  show "sort (getKeysInRange ?T f u)
          = filter (\<lambda>k. f \<le> k \<and> k \<le> u) (map fst (inOrderTraversal ?T))"
  proof (rule sorted_distinct_set_unique)
    have s: "sorted_wrt (<) (map fst (inOrderTraversal ?T))"
      using b by (simp add: bst_def increasing_def inOrderTraversal_entries)
    show "sorted (sort (getKeysInRange ?T f u))" by simp
    show "distinct (sort (getKeysInRange ?T f u))"
      using b by (simp add: getKeysInRange_keysIn distinct_keysIn)
    show "sorted (filter (\<lambda>k. f \<le> k \<and> k \<le> u) (map fst (inOrderTraversal ?T)))"
      using s by (simp add: strict_sorted_iff sorted_wrt_filter)
    show "distinct (filter (\<lambda>k. f \<le> k \<and> k \<le> u) (map fst (inOrderTraversal ?T)))"
      using s by (simp add: strict_sorted_iff)
    show "set (sort (getKeysInRange ?T f u))
            = set (filter (\<lambda>k. f \<le> k \<and> k \<le> u) (map fst (inOrderTraversal ?T)))"
      using b by (auto simp: getKeysInRange_keysIn set_keysIn inOrderTraversal_entries keySet_def)
  qed
qed

theorem getKeysInRange_preOrder_witness:
  "preOrderKeys (root (runTreeOps [Insert 10 (Finite 1), Insert 20 (Finite 2), Insert 30 (Finite 3), Insert 40 (Finite 4)]))
     = [20, 10, 30, 40]
   \<and> getKeysInRange (runTreeOps [Insert 10 (Finite 1), Insert 20 (Finite 2), Insert 30 (Finite 3), Insert 40 (Finite 4)]) 5 35
     = [20, 10, 30]
   \<and> sort (getKeysInRange (runTreeOps [Insert 10 (Finite 1), Insert 20 (Finite 2), Insert 30 (Finite 3), Insert 40 (Finite 4)]) 5 35)
     = [10, 20, 30]
   \<and> map fst (inOrderTraversal (runTreeOps [Insert 10 (Finite 1), Insert 20 (Finite 2), Insert 30 (Finite 3), Insert 40 (Finite 4)]))
     = [10, 20, 30, 40]"
  using getKeysInRange_preOrder [of "[Insert 10 (Finite 1), Insert 20 (Finite 2), Insert 30 (Finite 3), Insert 40 (Finite 4)]" 5 35]
  by (simp add: tree_eval)

text \<open>
  C7, counterexample. \<open>findNearest\<close> decides with
  \<open>key - less.key < greater.key - key ? less : greater\<close>, two double subtractions and a
  strict comparison. On an exact distance tie it therefore returns the successor, not the
  lesser key: with 10 and 30 stored, 20 is not stored, its neighbours are 10 and 30 at
  distance 10 each, and the node returned is the one of 30. And a predecessor that is
  strictly closer loses when the two differences round to the same double: with
  -9007199254740994 and 9007199254740994 stored and the key -1/4, the predecessor is at
  distance 9007199254740993.75 and the successor at 9007199254740994.25, both differences
  are the double 9007199254740994, and the node returned is the successor's.
\<close>

theorem findNearest_tie_returns_greater:
  "AVLTree_find (runTreeOps [Insert 10 (Finite 1), Insert 30 (Finite 3)]) 20 = Null
   \<and> key (AVLTree_findLessThan (runTreeOps [Insert 10 (Finite 1), Insert 30 (Finite 3)]) 20) = 10
   \<and> key (AVLTree_findGreaterThan (runTreeOps [Insert 10 (Finite 1), Insert 30 (Finite 3)]) 20) = 30
   \<and> (20 :: real) - 10 = 30 - 20
   \<and> findNearest (runTreeOps [Insert 10 (Finite 1), Insert 30 (Finite 3)]) 20 = Node 30 (Finite 3) 1 Null Null
   \<and> key (findNearest (runTreeOps [Insert 10 (Finite 1), Insert 30 (Finite 3)]) 20) \<noteq> 10
   \<and> \<bar>- (1 / 4) - (- 9007199254740994)\<bar> < \<bar>(9007199254740994 :: real) - (- (1 / 4))\<bar>
   \<and> key (findNearest (runTreeOps [Insert (- 9007199254740994) (Finite 1),
                                     Insert 9007199254740994 (Finite 2)]) (- (1 / 4)))
       = 9007199254740994"
  by (simp add: tree_eval roundDouble_near_tie)

text \<open>
  C7, as the code has it: \<open>findNearest(k)\<close> returns the node at \<open>k\<close> when \<open>k\<close> is stored;
  otherwise, when both a predecessor and a successor exist, the predecessor if the double
  \<open>k - predecessor\<close> is less than the double \<open>successor - k\<close> and the successor if not (so
  the successor on a tie, exact or produced by rounding); the only one of the two that
  exists; and \<open>null\<close> on an empty tree. \<open>nearestEntry\<close> states this on the in-order list of
  the tree.
\<close>

theorem findNearest_spec:
  "nodeEntry (findNearest (runTreeOps ops) k) = nearestEntry (inOrderTraversal (runTreeOps ops)) k"
  using reachable_invariants [of ops] by (simp add: findNearest_nearestEntry)

theorem findNearest_spec_witness:
  "nodeEntry (findNearest (runTreeOps [Insert 10 (Finite 1), Insert 20 (Finite 2), Insert 30 (Finite 3)]) 26) = Some (30, Finite 3)
   \<and> nodeEntry (findNearest (runTreeOps [Insert 10 (Finite 1), Insert 20 (Finite 2), Insert 30 (Finite 3)]) 24) = Some (20, Finite 2)
   \<and> nearestEntry (inOrderTraversal (runTreeOps [Insert 10 (Finite 1), Insert 20 (Finite 2), Insert 30 (Finite 3)])) 26
       = Some (30, Finite 3)"
  using findNearest_spec [of "[Insert 10 (Finite 1), Insert 20 (Finite 2), Insert 30 (Finite 3)]" 26]
  by (simp add: tree_eval)

text \<open>
  C9 (frame of \<open>insert\<close> on a stored key). When \<open>k\<close> is already stored in a reachable tree,
  \<open>insert(k, v)\<close> changes the value at \<open>k\<close> and nothing else: keys, links and cached
  heights are the same (\<open>skeleton\<close> forgets the values only), the in-order sequence
  differs at \<open>k\<close> only, and the tree is the one that \<open>update(k, v)\<close>, which assigns the
  value in place and never rotates, produces.
\<close>

theorem insert_existing_frame:
  assumes "k \<in> fst ` set (inOrderTraversal (runTreeOps ops))"
  shows "skeleton (root (AVLTree_insert (runTreeOps ops) k v)) = skeleton (root (runTreeOps ops))
       \<and> inOrderTraversal (AVLTree_insert (runTreeOps ops) k v)
           = map (\<lambda>p. if fst p = k then (k, v) else p) (inOrderTraversal (runTreeOps ops))
       \<and> AVLTree_insert (runTreeOps ops) k v = AVLTree_update (runTreeOps ops) k v"
proof -
  let ?T = "runTreeOps ops"
  have b: "bst (root ?T)" and a: "avl (root ?T)" using reachable_invariants by blast+
  have f: "findNode (root ?T) k \<noteq> Null"
    using assms findNode_Null_iff [OF b, of k] by (simp add: inOrderTraversal_entries keySet_def)
  have I: "insertNode (root ?T) k v = assignValue (root ?T) k v"
    using insertNode_existing [OF a f] .
  show ?thesis
    using f by (simp add: AVLTree_insert_def AVLTree_update_def AVLTree_find_def Let_def I
        skeleton_assignValue inOrderTraversal_entries entries_assignValue [OF b])
qed

theorem insert_existing_frame_witness:
  "30 \<in> fst ` set (inOrderTraversal (runTreeOps [Insert 10 (Finite 1), Insert 20 (Finite 2), Insert 30 (Finite 3)]))
   \<and> root (AVLTree_insert (runTreeOps [Insert 10 (Finite 1), Insert 20 (Finite 2), Insert 30 (Finite 3)]) 30 (Finite 7))
       = Node 20 (Finite 2) 2 (Node 10 (Finite 1) 1 Null Null) (Node 30 (Finite 7) 1 Null Null)
   \<and> skeleton (root (AVLTree_insert (runTreeOps [Insert 10 (Finite 1), Insert 20 (Finite 2), Insert 30 (Finite 3)]) 30 (Finite 7)))
       = skeleton (root (runTreeOps [Insert 10 (Finite 1), Insert 20 (Finite 2), Insert 30 (Finite 3)]))
   \<and> inOrderTraversal (AVLTree_insert (runTreeOps [Insert 10 (Finite 1), Insert 20 (Finite 2), Insert 30 (Finite 3)]) 30 (Finite 7))
       = [(10, Finite 1), (20, Finite 2), (30, Finite 7)]"
proof -
  have h: "30 \<in> fst ` set (inOrderTraversal (runTreeOps [Insert 10 (Finite 1), Insert 20 (Finite 2), Insert 30 (Finite 3)]))"
    by (simp add: tree_eval)
  show ?thesis
    using h insert_existing_frame [OF h, of "Finite 7"] by (simp add: tree_eval)
qed

text \<open>
  C10. The array returned by \<open>getKeysInRange(from, to)\<close> on a reachable tree holds exactly
  the stored keys \<open>k\<close> with \<open>from \<le> k \<le> to\<close>, each of them once, whatever their order.
\<close>

theorem getKeysInRange_exact:
  "set (getKeysInRange (runTreeOps ops) f u)
     = {k \<in> fst ` set (inOrderTraversal (runTreeOps ops)). f \<le> k \<and> k \<le> u}
   \<and> distinct (getKeysInRange (runTreeOps ops) f u)"
  using reachable_invariants [of ops]
  by (simp add: getKeysInRange_keysIn set_keysIn distinct_keysIn inOrderTraversal_entries
      keySet_def)

theorem getKeysInRange_exact_witness:
  "getKeysInRange (runTreeOps [Insert 10 (Finite 1), Insert 20 (Finite 2), Insert 30 (Finite 3), Insert 40 (Finite 4)]) 15 40
     = [20, 30, 40]
   \<and> fst ` set (inOrderTraversal (runTreeOps [Insert 10 (Finite 1), Insert 20 (Finite 2), Insert 30 (Finite 3), Insert 40 (Finite 4)]))
     = {10, 20, 30, 40}
   \<and> distinct (getKeysInRange (runTreeOps [Insert 10 (Finite 1), Insert 20 (Finite 2), Insert 30 (Finite 3), Insert 40 (Finite 4)]) 15 40)"
proof -
  have "distinct (getKeysInRange (runTreeOps [Insert 10 (Finite 1), Insert 20 (Finite 2), Insert 30 (Finite 3), Insert 40 (Finite 4)]) 15 40)"
    using getKeysInRange_exact [of "[Insert 10 (Finite 1), Insert 20 (Finite 2), Insert 30 (Finite 3), Insert 40 (Finite 4)]" 15 40]
    by blast
  then show ?thesis by (simp add: tree_eval)
qed

section \<open>The range list on the in-order sequence of its tree\<close>

lemma toArray_entries: "toArray R = entries (root (tree R))"
  by (simp add: toArray_def inOrderTraversal_entries)

lemma root_update_simp [simp]: "root (AVLTree_update T k v) = assignValue (root T) k v"
  by (rule root_update)

lemma findLessThan_Null_or_less:
  "bst t \<Longrightarrow> findLessThan t k Null = Null \<or> key (findLessThan t k Null) < k"
  using findLessThan_spec [of t k Null] by (auto split: if_splits)

lemma findGreaterThan_Null_or_greater:
  "bst t \<Longrightarrow> findGreaterThan t k Null = Null \<or> k < key (findGreaterThan t k Null)"
  using findGreaterThan_spec [of t k Null] by (auto split: if_splits)

lemma findNearest_misses:
  assumes "bst (root T)"
  shows "(findNearest T x = Null \<or> key (findNearest T x) \<noteq> x) \<longleftrightarrow> findNode (root T) x = Null"
proof (cases "findNode (root T) x = Null")
  case False
  then show ?thesis
    using findNode_entry [OF False] by (simp add: findNearest_def AVLTree_find_def Let_def)
next
  case True
  have "findNearest T x = Null \<or> key (findNearest T x) \<noteq> x"
    using True findLessThan_Null_or_less [OF assms, of x]
      findGreaterThan_Null_or_greater [OF assms, of x]
    by (auto simp: findNearest_def AVLTree_find_def AVLTree_findLessThan_def
        AVLTree_findGreaterThan_def Let_def)
  then show ?thesis using True by simp
qed

lemma getIntensityAt_effective:
  assumes "bst (root (tree R))"
  shows "getIntensityAt R x = effective (entries (root (tree R))) x"
proof -
  let ?t = "root (tree R)"
  have inc: "increasing (entries ?t)" using assms by (simp add: bst_def)
  show ?thesis
  proof (cases "findNode ?t x = Null")
    case False
    let ?n = "findNode ?t x"
    have e: "key ?n = x" "(x, val ?n) \<in> set (entries ?t)"
      using findNode_entry [OF False] by simp_all
    have "governs (entries ?t) x x (val ?n)"
      using e(2) by (simp add: governs_def)
    then have "effective (entries ?t) x = val ?n"
      using effective_governs [OF inc] by blast
    then show ?thesis
      using False by (simp add: getIntensityAt_def findLessThanOrEqual_def AVLTree_find_def Let_def)
  next
    case True
    then have nk: "x \<notin> keySet ?t" using findNode_Null_iff [OF assms] by simp
    let ?n = "findLessThan ?t x Null"
    have G: "getIntensityAt R x = (if ?n \<noteq> Null then val ?n else Finite 0)"
      using True
      by (simp add: getIntensityAt_def findLessThanOrEqual_def AVLTree_find_def
          AVLTree_findLessThan_def Let_def)
    show ?thesis
    proof (cases "\<exists>k\<in>keySet ?t. k < x")
      case True
      from findLessThan_spec [OF assms, of x Null] True
      have n: "?n \<noteq> Null" "(key ?n, val ?n) \<in> set (entries ?t)" "key ?n < x"
        "\<forall>k\<in>keySet ?t. k < x \<longrightarrow> k \<le> key ?n"
        by simp_all
      have "\<forall>p\<in>set (entries ?t). fst p \<le> x \<longrightarrow> fst p \<le> key ?n"
      proof (intro ballI impI)
        fix p assume p: "p \<in> set (entries ?t)" "fst p \<le> x"
        then have "fst p \<in> keySet ?t" by (simp add: keySet_def)
        then have "fst p < x" using nk p(2) by (cases "fst p = x") auto
        then show "fst p \<le> key ?n" using n(4) \<open>fst p \<in> keySet ?t\<close> by blast
      qed
      then have "governs (entries ?t) x (key ?n) (val ?n)"
        using n(2,3) by (simp add: governs_def)
      then have "effective (entries ?t) x = val ?n"
        using effective_governs [OF inc] by blast
      then show ?thesis using G n(1) by simp
    next
      case False
      from findLessThan_spec [OF assms, of x Null] False
      have n: "?n = Null" by simp
      have "\<forall>p\<in>set (entries ?t). x < fst p"
      proof
        fix p assume p: "p \<in> set (entries ?t)"
        then have k: "fst p \<in> keySet ?t" by (simp add: keySet_def)
        then have "\<not> fst p < x" "fst p \<noteq> x" using False nk by auto
        then show "x < fst p" by simp
      qed
      then have "effective (entries ?t) x = Finite 0" by (rule effective_none)
      then show ?thesis using G n by simp
    qed
  qed
qed

lemma ensurePointExists_entries:
  assumes "bst (root (tree R))"
  shows "bst (root (tree (ensurePointExists R x)))"
    and "set (entries (root (tree (ensurePointExists R x)))) =
           (if x \<in> keySet (root (tree R)) then set (entries (root (tree R)))
            else insert (x, effective (entries (root (tree R))) x) (set (entries (root (tree R)))))"
proof -
  let ?t = "root (tree R)"
  have C: "(findNearest (tree R) x = Null \<or> key (findNearest (tree R) x) \<noteq> x)
             \<longleftrightarrow> x \<notin> keySet ?t"
    using findNearest_misses [OF assms, of x] findNode_Null_iff [OF assms, of x] by simp
  have E: "root (tree (ensurePointExists R x)) =
             (if x \<in> keySet ?t then ?t else insertNode ?t x (effective (entries ?t) x))"
    using C getIntensityAt_effective [OF assms, of x]
    by (auto simp: ensurePointExists_def Let_def)
  show "bst (root (tree (ensurePointExists R x)))"
    unfolding E using assms bst_insertNode [OF assms] by simp
  have "x \<notin> keySet ?t \<Longrightarrow> {p \<in> set (entries ?t). fst p \<noteq> x} = set (entries ?t)"
    by (auto simp: keySet_def)
  then show "set (entries (root (tree (ensurePointExists R x)))) =
           (if x \<in> keySet ?t then set (entries ?t)
            else insert (x, effective (entries ?t) x) (set (entries ?t)))"
    unfolding E using set_entries_insertNode [OF assms, of x "effective (entries ?t) x"] by simp
qed

lemma effective_insert_same:
  assumes ps: "increasing ps" and qs: "increasing qs"
    and set: "set qs = insert (x, effective ps x) (set ps)"
    and new: "x \<notin> fst ` set ps"
  shows "effective qs y = effective ps y"
proof (cases "y < x")
  case True
  have "{p \<in> set qs. fst p \<le> y} = {p \<in> set ps. fst p \<le> y}"
    using True by (auto simp: set)
  then show ?thesis using effective_cong [OF qs ps] by blast
next
  case False
  then have xy: "x \<le> y" by simp
  from governs_cases [of ps y] show ?thesis
  proof
    assume none: "\<forall>p\<in>set ps. y < fst p"
    then have 0: "effective ps y = Finite 0" by (rule effective_none)
    have "\<forall>p\<in>set ps. x < fst p" using none xy by fastforce
    then have x0: "effective ps x = Finite 0" by (rule effective_none)
    have "governs qs y x (Finite 0)"
      unfolding governs_def set x0 using xy none by fastforce
    then have "effective qs y = Finite 0" using effective_governs [OF qs] by blast
    then show ?thesis using 0 by simp
  next
    assume "\<exists>k v. governs ps y k v"
    then obtain k v where g: "governs ps y k v" by blast
    then have v: "effective ps y = v" using effective_governs [OF ps] by blast
    have kv: "(k, v) \<in> set ps" "k \<le> y" "\<forall>p\<in>set ps. fst p \<le> y \<longrightarrow> fst p \<le> k"
      using g by (simp_all add: governs_def)
    have kx: "k \<noteq> x" using kv(1) new by force
    show ?thesis
    proof (cases "k < x")
      case True
      have "governs ps x k v"
        unfolding governs_def using kv True xy by fastforce
      then have xv: "effective ps x = v" using effective_governs [OF ps] by blast
      have "governs qs y x v"
        unfolding governs_def set xv using kv True xy by fastforce
      then show ?thesis using effective_governs [OF qs] v by blast
    next
      case False
      then have "x < k" using kx by simp
      then have "governs qs y k v"
        unfolding governs_def set using kv by fastforce
      then show ?thesis using effective_governs [OF qs] v by blast
    qed
  qed
qed

lemma ensurePointExists_effective:
  assumes "bst (root (tree R))"
  shows "effective (entries (root (tree (ensurePointExists R x)))) y
           = effective (entries (root (tree R))) y"
proof (cases "x \<in> keySet (root (tree R))")
  case True
  have "increasing (entries (root (tree (ensurePointExists R x))))"
    "increasing (entries (root (tree R)))"
    using ensurePointExists_entries(1) [OF assms, of x] assms by (simp_all add: bst_def)
  moreover have "set (entries (root (tree (ensurePointExists R x)))) = set (entries (root (tree R)))"
    using ensurePointExists_entries(2) [OF assms, of x] True by simp
  ultimately have "entries (root (tree (ensurePointExists R x))) = entries (root (tree R))"
    by (rule increasing_unique)
  then show ?thesis by simp
next
  case False
  show ?thesis
  proof (rule effective_insert_same)
    show "increasing (entries (root (tree R)))" using assms by (simp add: bst_def)
    show "increasing (entries (root (tree (ensurePointExists R x))))"
      using ensurePointExists_entries(1) [OF assms, of x] by (simp add: bst_def)
    show "set (entries (root (tree (ensurePointExists R x)))) =
            insert (x, effective (entries (root (tree R))) x) (set (entries (root (tree R))))"
      using ensurePointExists_entries(2) [OF assms, of x] False by simp
    show "x \<notin> fst ` set (entries (root (tree R)))" using False by (simp add: keySet_def)
  qed
qed

lemma ensurePointExists_keys:
  assumes "bst (root (tree R))"
  shows "keySet (root (tree (ensurePointExists R x))) = insert x (keySet (root (tree R)))"
  using ensurePointExists_entries(2) [OF assms, of x]
  by (auto simp: keySet_def split: if_splits)

section \<open>The loops of the range list\<close>

lemma adjustStep_entries:
  assumes "bst (root (tree R))"
  shows "bst (root (tree (adjustStep f u a R x)))"
    and "entries (root (tree (adjustStep f u a R x))) =
           map (\<lambda>p. if fst p = x \<and> (x = f \<or> x < u) then (fst p, doubleAdd (snd p) a) else p)
             (entries (root (tree R)))"
proof -
  let ?t = "root (tree R)"
  let ?n = "findNode ?t x"
  let ?g = "\<lambda>p. if fst p = x \<and> (x = f \<or> x < u) then (fst p, doubleAdd (snd p) a) else p"
  have inc: "increasing (entries ?t)" using assms by (simp add: bst_def)
  have E: "root (tree (adjustStep f u a R x)) =
             (if ?n \<noteq> Null \<and> (x = f \<or> x < u) then assignValue ?t x (doubleAdd (val ?n) a) else ?t)"
    by (auto simp: adjustStep_def AVLTree_find_def Let_def)
  show "bst (root (tree (adjustStep f u a R x)))"
    unfolding E using assms bst_assignValue [OF assms] by simp
  show "entries (root (tree (adjustStep f u a R x))) = map ?g (entries ?t)"
  proof (cases "?n \<noteq> Null \<and> (x = f \<or> x < u)")
    case True
    then have e: "(x, val ?n) \<in> set (entries ?t)" using findNode_entry [of ?t x] by simp
    have "map (\<lambda>p. if fst p = x then (x, doubleAdd (val ?n) a) else p) (entries ?t) = map ?g (entries ?t)"
    proof (rule map_cong [OF refl])
      fix p assume p: "p \<in> set (entries ?t)"
      show "(if fst p = x then (x, doubleAdd (val ?n) a) else p) = ?g p"
      proof (cases "fst p = x")
        case fx: True
        then have "(x, snd p) \<in> set (entries ?t)" using p by (metis prod.collapse)
        then have "snd p = val ?n" using increasing_unique_value [OF inc _ e] by blast
        then show ?thesis using fx True by simp
      next
        case False
        then show ?thesis by simp
      qed
    qed
    then show ?thesis unfolding E using True entries_assignValue [OF assms] by simp
  next
    case False
    have "map ?g (entries ?t) = entries ?t"
    proof (rule map_idI)
      fix p assume p: "p \<in> set (entries ?t)"
      show "?g p = p"
      proof (cases "x = f \<or> x < u")
        case True
        then have "?n = Null" using False by simp
        then have "x \<notin> keySet ?t" using findNode_Null_iff [OF assms] by simp
        then have "fst p \<noteq> x" using p by (auto simp: keySet_def)
        then show ?thesis by simp
      next
        case False
        then show ?thesis by simp
      qed
    qed
    moreover have "root (tree (adjustStep f u a R x)) = ?t"
      unfolding E using False by (simp only: if_False)
    ultimately show ?thesis by simp
  qed
qed

lemma foldl_adjustStep:
  "bst (root (tree R)) \<Longrightarrow> distinct xs \<Longrightarrow>
     bst (root (tree (foldl (adjustStep f u a) R xs)))
     \<and> entries (root (tree (foldl (adjustStep f u a) R xs))) =
         map (\<lambda>p. if fst p \<in> set xs \<and> (fst p = f \<or> fst p < u) then (fst p, doubleAdd (snd p) a) else p)
           (entries (root (tree R)))"
proof (induction xs arbitrary: R)
  case Nil
  then show ?case by (simp add: map_idI)
next
  case (Cons x xs)
  let ?R = "adjustStep f u a R x"
  note S = adjustStep_entries [OF Cons.prems(1), of f u a x]
  have d: "distinct xs" "x \<notin> set xs" using Cons.prems(2) by simp_all
  note IH = Cons.IH [OF S(1) d(1)]
  have "map (\<lambda>p. if fst p \<in> set xs \<and> (fst p = f \<or> fst p < u) then (fst p, doubleAdd (snd p) a) else p)
          (map (\<lambda>p. if fst p = x \<and> (x = f \<or> x < u) then (fst p, doubleAdd (snd p) a) else p)
             (entries (root (tree R))))
        = map (\<lambda>p. if fst p \<in> set (x # xs) \<and> (fst p = f \<or> fst p < u)
                     then (fst p, doubleAdd (snd p) a) else p) (entries (root (tree R)))"
    using d(2) by (auto simp: map_eq_conv)
  then show ?case using IH S(2) by simp
qed

lemma adjustIntensities_entries:
  assumes "bst (root (tree R))" "f < u"
  shows "bst (root (tree (adjustIntensities R f u a)))"
    and "entries (root (tree (adjustIntensities R f u a))) =
           map (\<lambda>p. if f \<le> fst p \<and> fst p < u then (fst p, doubleAdd (snd p) a) else p)
             (entries (root (tree R)))"
proof -
  let ?xs = "keysIn (root (tree R)) f u"
  have d: "distinct ?xs" using assms(1) by (rule distinct_keysIn)
  have s: "set ?xs = {k \<in> keySet (root (tree R)). f \<le> k \<and> k \<le> u}"
    using assms(1) by (rule set_keysIn)
  note F = foldl_adjustStep [OF assms(1) d, of f u a]
  have A: "adjustIntensities R f u a = foldl (adjustStep f u a) R ?xs"
    by (simp add: adjustIntensities_def getKeysInRange_keysIn)
  show "bst (root (tree (adjustIntensities R f u a)))" unfolding A using F by simp
  have "map (\<lambda>p. if fst p \<in> set ?xs \<and> (fst p = f \<or> fst p < u) then (fst p, doubleAdd (snd p) a) else p)
           (entries (root (tree R)))
        = map (\<lambda>p. if f \<le> fst p \<and> fst p < u then (fst p, doubleAdd (snd p) a) else p)
           (entries (root (tree R)))"
    using assms(2) by (auto simp: map_eq_conv s keySet_def)
  then show "entries (root (tree (adjustIntensities R f u a))) =
           map (\<lambda>p. if f \<le> fst p \<and> fst p < u then (fst p, doubleAdd (snd p) a) else p)
             (entries (root (tree R)))"
    unfolding A using F by simp
qed

lemma foldl_removeStep:
  "bst (root (tree R)) \<Longrightarrow>
     bst (root (tree (foldl (removeStep f u) R xs)))
     \<and> entries (root (tree (foldl (removeStep f u) R xs))) =
         filter (\<lambda>p. \<not> (fst p \<in> set xs \<and> f < fst p \<and> fst p < u)) (entries (root (tree R)))"
proof (induction xs arbitrary: R)
  case Nil
  then show ?case by simp
next
  case (Cons x xs)
  let ?R = "removeStep f u R x"
  have b: "bst (root (tree ?R))"
    using set_entries_removeNode [OF Cons.prems, of x] Cons.prems by (simp add: removeStep_def)
  have e: "entries (root (tree ?R)) =
             filter (\<lambda>p. \<not> (fst p = x \<and> f < fst p \<and> fst p < u)) (entries (root (tree R)))"
    using entries_removeNode [OF Cons.prems, of x]
    by (auto simp: removeStep_def intro: filter_cong)
  have "filter (\<lambda>p. \<not> (fst p \<in> set xs \<and> f < fst p \<and> fst p < u))
          (filter (\<lambda>p. \<not> (fst p = x \<and> f < fst p \<and> fst p < u)) (entries (root (tree R))))
        = filter (\<lambda>p. \<not> (fst p \<in> set (x # xs) \<and> f < fst p \<and> fst p < u))
            (entries (root (tree R)))"
    by (auto intro: filter_cong)
  then show ?case using Cons.IH [OF b] e by simp
qed

lemma removePointsInRange_entries:
  assumes "bst (root (tree R))"
  shows "bst (root (tree (removePointsInRange R f u)))"
    and "entries (root (tree (removePointsInRange R f u))) =
           filter (\<lambda>p. \<not> (f < fst p \<and> fst p < u)) (entries (root (tree R)))"
proof -
  let ?xs = "keysIn (root (tree R)) f u"
  have s: "set ?xs = {k \<in> keySet (root (tree R)). f \<le> k \<and> k \<le> u}"
    using assms(1) by (rule set_keysIn)
  note F = foldl_removeStep [OF assms(1), of f u ?xs]
  have A: "removePointsInRange R f u = foldl (removeStep f u) R ?xs"
    by (simp add: removePointsInRange_def getKeysInRange_keysIn)
  show "bst (root (tree (removePointsInRange R f u)))" unfolding A using F by simp
  have "filter (\<lambda>p. \<not> (fst p \<in> set ?xs \<and> f < fst p \<and> fst p < u)) (entries (root (tree R)))
        = filter (\<lambda>p. \<not> (f < fst p \<and> fst p < u)) (entries (root (tree R)))"
    by (rule filter_cong) (auto simp: s keySet_def)
  then show "entries (root (tree (removePointsInRange R f u))) =
           filter (\<lambda>p. \<not> (f < fst p \<and> fst p < u)) (entries (root (tree R)))"
    unfolding A using F by simp
qed

lemma foldl_remove:
  "bst (root (tree R)) \<Longrightarrow>
     bst (root (tree (foldl (\<lambda>R' key'. R'\<lparr>tree := AVLTree_remove (tree R') key'\<rparr>) R ks)))
     \<and> entries (root (tree (foldl (\<lambda>R' key'. R'\<lparr>tree := AVLTree_remove (tree R') key'\<rparr>) R ks))) =
         filter (\<lambda>p. fst p \<notin> set ks) (entries (root (tree R)))"
proof (induction ks arbitrary: R)
  case Nil
  then show ?case by simp
next
  case (Cons k ks)
  let ?R = "R\<lparr>tree := AVLTree_remove (tree R) k\<rparr>"
  have b: "bst (root (tree ?R))"
    using set_entries_removeNode [OF Cons.prems, of k] by simp
  have e: "entries (root (tree ?R)) = filter (\<lambda>p. fst p \<noteq> k) (entries (root (tree R)))"
    using entries_removeNode [OF Cons.prems, of k] by simp
  have "filter (\<lambda>p. fst p \<notin> set ks) (filter (\<lambda>p. fst p \<noteq> k) (entries (root (tree R))))
        = filter (\<lambda>p. fst p \<notin> set (k # ks)) (entries (root (tree R)))"
    by (auto intro: filter_cong)
  then show ?case using Cons.IH [OF b] e by simp
qed

section \<open>The cleanup pass\<close>

lemma marks_snoc:
  "marks d (xs @ [y]) =
     marks d xs \<union> (if snd y = (if xs = [] then d else snd (last xs)) then {fst y} else {})"
  by (induction xs arbitrary: d) auto

lemma marks_subset: "marks d ps \<subseteq> fst ` set ps"
  by (induction ps arbitrary: d) auto

lemma scanRedundant_marks:
  "n \<le> length qs \<Longrightarrow>
     set (scanRedundant (p # qs) n acc) = set acc \<union> marks (snd p) (take n qs)"
proof (induction n arbitrary: acc)
  case 0
  then show ?case by simp
next
  case (Suc j)
  then have j: "j < length qs" by simp
  have T: "take (Suc j) qs = take j qs @ [qs ! j]"
    using j by (rule take_Suc_conv_app_nth)
  have P: "(p # qs) ! j = (if take j qs = [] then p else last (take j qs))"
  proof (cases j)
    case 0
    then show ?thesis by simp
  next
    case (Suc i)
    then have "take j qs \<noteq> []" using j by auto
    moreover have "last (take j qs) = qs ! i"
      using j Suc by (simp add: take_Suc_conv_app_nth)
    ultimately show ?thesis using Suc by simp
  qed
  have M: "marks (snd p) (take (Suc j) qs) =
             marks (snd p) (take j qs)
             \<union> (if snd (qs ! j) = snd ((p # qs) ! j) then {fst (qs ! j)} else {})"
    unfolding T marks_snoc P by simp
  have jl: "j \<le> length qs" using j by simp
  show ?case
  proof (cases "snd (qs ! j) = snd ((p # qs) ! j)")
    case True
    have "set (scanRedundant (p # qs) (Suc j) acc) = set (scanRedundant (p # qs) j (acc @ [fst (qs ! j)]))"
      using True by simp
    also have "\<dots> = set (acc @ [fst (qs ! j)]) \<union> marks (snd p) (take j qs)"
      using jl by (rule Suc.IH)
    also have "\<dots> = set acc \<union> marks (snd p) (take (Suc j) qs)"
      unfolding M using True by auto
    finally show ?thesis .
  next
    case False
    have "set (scanRedundant (p # qs) (Suc j) acc) = set (scanRedundant (p # qs) j acc)"
      using False by simp
    also have "\<dots> = set acc \<union> marks (snd p) (take j qs)"
      using jl by (rule Suc.IH)
    also have "\<dots> = set acc \<union> marks (snd p) (take (Suc j) qs)"
      unfolding M using False by auto
    finally show ?thesis .
  qed
qed

lemma canon_filter_marks:
  "increasing ps \<Longrightarrow> canon d ps = filter (\<lambda>q. fst q \<notin> marks d ps) ps"
proof (induction ps arbitrary: d)
  case Nil
  then show ?case by simp
next
  case (Cons p ps)
  have inc: "increasing ps" and lt: "\<forall>q\<in>set ps. fst p < fst q"
    using Cons.prems by (simp_all add: increasing_Cons)
  have np: "fst p \<notin> marks (snd p) ps"
    using marks_subset [of "snd p" ps] lt by fastforce
  have "filter (\<lambda>q. fst q \<notin> marks d (p # ps)) ps = filter (\<lambda>q. fst q \<notin> marks (snd p) ps) ps"
    using lt by (intro filter_cong) auto
  then show ?case using Cons.IH [OF inc, of "snd p"] np by auto
qed

lemma canon_sublist: "set (canon d ps) \<subseteq> set ps"
  by (induction ps arbitrary: d) auto

lemma increasing_canon: "increasing ps \<Longrightarrow> increasing (canon d ps)"
  by (simp add: canon_filter_marks increasing_filter)

lemma canon_head: "canon d ps = [] \<or> snd (hd (canon d ps)) \<noteq> d"
  by (induction ps arbitrary: d) auto

lemma distinctAdjacent_Cons:
  "distinctAdjacent (p # ps) \<longleftrightarrow> (ps = [] \<or> snd (hd ps) \<noteq> snd p) \<and> distinctAdjacent ps"
  by (cases ps) auto

lemma distinctAdjacent_canon: "distinctAdjacent (canon d ps)"
proof (induction ps arbitrary: d)
  case Nil
  then show ?case by simp
next
  case (Cons p ps)
  show ?case
    using Cons [of "snd p"] canon_head [of "snd p" ps] by (auto simp: distinctAdjacent_Cons)
qed

lemma canonical_canon: "canonical (canon (Finite 0) ps)"
  using distinctAdjacent_canon [of "Finite 0" ps] canon_head [of "Finite 0" ps]
  by (cases "canon (Finite 0) ps") (simp_all add: canonical_def)

lemma effective_effectiveFrom: "effective ps x = effectiveFrom (Finite 0) ps x"
  by (simp add: effective_def effectiveFrom_def)

lemma effectiveFrom_Nil [simp]: "effectiveFrom d [] x = d"
  by (simp add: effectiveFrom_def)

lemma effectiveFrom_above: "\<forall>p\<in>set ps. x < fst p \<Longrightarrow> effectiveFrom d ps x = d"
proof -
  assume "\<forall>p\<in>set ps. x < fst p"
  then have "filter (\<lambda>p. fst p \<le> x) ps = []"
    by (auto simp: filter_empty_conv)
  then show ?thesis by (simp add: effectiveFrom_def)
qed

lemma effectiveFrom_Cons:
  assumes "increasing (p # ps)"
  shows "effectiveFrom d (p # ps) x = (if fst p \<le> x then effectiveFrom (snd p) ps x else d)"
proof (cases "fst p \<le> x")
  case True
  then show ?thesis
    by (cases "filter (\<lambda>p. fst p \<le> x) ps") (simp_all add: effectiveFrom_def)
next
  case False
  then have "\<forall>q\<in>set (p # ps). x < fst q"
    using assms by (fastforce simp: increasing_Cons)
  then show ?thesis using False effectiveFrom_above by simp
qed

lemma effectiveFrom_canon:
  "increasing ps \<Longrightarrow> effectiveFrom d (canon d ps) x = effectiveFrom d ps x"
proof (induction ps arbitrary: d)
  case Nil
  then show ?case by simp
next
  case (Cons p ps)
  have inc: "increasing ps" and lt: "\<forall>q\<in>set ps. fst p < fst q"
    using Cons.prems by (simp_all add: increasing_Cons)
  note IH = Cons.IH [OF inc, of "snd p"]
  show ?case
  proof (cases "snd p = d")
    case True
    have "effectiveFrom d ps x = d" if "\<not> fst p \<le> x"
      using that lt by (intro effectiveFrom_above) fastforce
    then show ?thesis
      using True IH by (simp add: effectiveFrom_Cons [OF Cons.prems])
  next
    case False
    have "increasing (p # canon (snd p) ps)"
      using lt canon_sublist [of "snd p" ps] increasing_canon [OF inc, of "snd p"]
      by (auto simp: increasing_Cons)
    then show ?thesis
      using False IH by (simp add: effectiveFrom_Cons [OF Cons.prems] effectiveFrom_Cons)
  qed
qed

lemma effective_canon: "increasing ps \<Longrightarrow> effective (canon (Finite 0) ps) x = effective ps x"
  by (simp add: effective_effectiveFrom effectiveFrom_canon)

lemma cleanupRedundantPoints_entries:
  assumes "bst (root (tree R))"
  shows "bst (root (tree (cleanupRedundantPoints R)))"
    and "entries (root (tree (cleanupRedundantPoints R))) =
           (if length (entries (root (tree R))) \<le> 1 then entries (root (tree R))
            else canon (Finite 0) (entries (root (tree R))))"
proof -
  let ?ps = "entries (root (tree R))"
  have inc: "increasing ?ps" using assms by (simp add: bst_def)
  have "bst (root (tree (cleanupRedundantPoints R)))
        \<and> entries (root (tree (cleanupRedundantPoints R))) =
           (if length ?ps \<le> 1 then ?ps else canon (Finite 0) ?ps)"
  proof (cases "length ?ps \<le> 1")
    case True
    then show ?thesis
      using assms by (simp add: cleanupRedundantPoints_def inOrderTraversal_entries)
  next
    case False
    then obtain p qs where ps: "?ps = p # qs" by (cases ?ps) auto
    let ?ks = "scanRedundant ?ps (length ?ps - 1) (if snd (?ps ! 0) = Finite 0 then [fst (?ps ! 0)] else [])"
    have C: "cleanupRedundantPoints R =
               foldl (\<lambda>R' key'. R'\<lparr>tree := AVLTree_remove (tree R') key'\<rparr>) R ?ks"
      using False by (simp add: cleanupRedundantPoints_def inOrderTraversal_entries Let_def)
    have "set ?ks = marks (Finite 0) ?ps"
      unfolding ps using scanRedundant_marks [of "length qs" qs p] by auto
    then have "filter (\<lambda>q. fst q \<notin> set ?ks) ?ps = canon (Finite 0) ?ps"
      using canon_filter_marks [OF inc, of "Finite 0"] by simp
    then show ?thesis
      unfolding C using foldl_remove [OF assms, of ?ks] False by simp
  qed
  then show "bst (root (tree (cleanupRedundantPoints R)))"
    and "entries (root (tree (cleanupRedundantPoints R))) =
           (if length ?ps \<le> 1 then ?ps else canon (Finite 0) ?ps)"
    by blast+
qed

section \<open>add and set on the in-order sequence\<close>

lemma two_keys_length:
  assumes "a \<in> fst ` set ps" "b \<in> fst ` set ps" "a \<noteq> b"
  shows "\<not> length ps \<le> 1"
proof
  assume "length ps \<le> 1"
  then consider "ps = []" | p where "ps = [p]"
    by (cases ps) (auto simp: length_Suc_conv)
  then show False using assms by cases auto
qed

lemma effective_between:
  assumes "b \<le> x" "\<forall>p\<in>set ps. \<not> (b < fst p \<and> fst p \<le> x)"
  shows "effective ps x = effective ps b"
proof -
  have "filter (\<lambda>p. fst p \<le> x) ps = filter (\<lambda>p. fst p \<le> b) ps"
    using assms by (intro filter_cong) auto
  then show ?thesis by (simp add: effective_def)
qed

lemma effective_shift:
  assumes inc: "increasing ps" and a: "a \<in> fst ` set ps" and b: "b \<in> fst ` set ps"
    and ab: "a < b"
  shows "effective (map (\<lambda>p. if a \<le> fst p \<and> fst p < b then (fst p, doubleAdd (snd p) c) else p) ps) x
           = (if a \<le> x \<and> x < b then doubleAdd (effective ps x) c else effective ps x)"
proof -
  let ?g = "\<lambda>p. if a \<le> fst p \<and> fst p < b then (fst p, doubleAdd (snd p) c) else p"
  have keys: "fst (?g p) = fst p" for p by simp
  have inc': "increasing (map ?g ps)"
    using inc increasing_map_keys [of ?g ps] keys by blast
  from governs_cases [of ps x] show ?thesis
  proof
    assume none: "\<forall>p\<in>set ps. x < fst p"
    then have "x < a" using a by auto
    moreover have "effective ps x = Finite 0" using none by (rule effective_none)
    moreover have "\<forall>p\<in>set (map ?g ps). x < fst p" using none by auto
    then have "effective (map ?g ps) x = Finite 0" by (rule effective_none)
    ultimately show ?thesis by simp
  next
    assume "\<exists>k v. governs ps x k v"
    then obtain k v where g: "governs ps x k v" by blast
    then have kv: "(k, v) \<in> set ps" "k \<le> x" "\<forall>p\<in>set ps. fst p \<le> x \<longrightarrow> fst p \<le> k"
      by (simp_all add: governs_def)
    have v: "effective ps x = v" using effective_governs [OF inc g] .
    have R: "(a \<le> k \<and> k < b) \<longleftrightarrow> (a \<le> x \<and> x < b)"
      using kv(2,3) a b by fastforce
    have q: "(k, snd (?g (k, v))) = ?g (k, v)" by simp
    have "(k, snd (?g (k, v))) \<in> set (map ?g ps)"
      unfolding q set_map using kv(1) by (rule imageI)
    moreover have "\<forall>p\<in>set (map ?g ps). fst p \<le> x \<longrightarrow> fst p \<le> k"
      using kv(3) by auto
    ultimately have "governs (map ?g ps) x k (snd (?g (k, v)))"
      unfolding governs_def using kv(2) by blast
    then have "effective (map ?g ps) x = snd (?g (k, v))"
      using effective_governs [OF inc'] by blast
    then show ?thesis using v R by auto
  qed
qed

lemma set_replaced:
  fixes ps :: "(real \<times> number) list"
  assumes a: "a \<in> fst ` set ps" and b: "b \<in> fst ` set ps" and ab: "a < b"
  shows "set (map (\<lambda>p. if fst p = b then (b, d) else p)
               (map (\<lambda>p. if fst p = a then (a, c) else p)
                  (filter (\<lambda>p. \<not> (a < fst p \<and> fst p < b)) ps)))
           = {p \<in> set ps. fst p < a \<or> b < fst p} \<union> {(a, c), (b, d)}"
    (is "set ?qs = ?S")
proof (rule set_eqI)
  fix q
  obtain va vb where va: "(a, va) \<in> set ps" and vb: "(b, vb) \<in> set ps"
    using a b by auto
  have M: "set ?qs = (\<lambda>p. if fst p = b then (b, d) else if fst p = a then (a, c) else p)
                       ` {p \<in> set ps. \<not> (a < fst p \<and> fst p < b)}"
    using ab by (auto simp: image_iff)
  show "q \<in> set ?qs \<longleftrightarrow> q \<in> ?S"
  proof
    assume "q \<in> set ?qs"
    then obtain p where p: "p \<in> set ps" "\<not> (a < fst p \<and> fst p < b)"
      "q = (if fst p = b then (b, d) else if fst p = a then (a, c) else p)"
      unfolding M by blast
    then show "q \<in> ?S"
      using ab by (cases "fst p = b"; cases "fst p = a") auto
  next
    assume q: "q \<in> ?S"
    then consider "q \<in> set ps" "fst q < a \<or> b < fst q" | "q = (a, c)" | "q = (b, d)"
      by blast
    then show "q \<in> set ?qs"
    proof cases
      case 1
      then have "q = (if fst q = b then (b, d) else if fst q = a then (a, c) else q)"
        using ab by auto
      then show ?thesis unfolding M using 1 ab by (intro image_eqI [of _ _ q]) auto
    next
      case 2
      then show ?thesis unfolding M using va ab by (intro image_eqI [of _ _ "(a, va)"]) auto
    next
      case 3
      then show ?thesis unfolding M using vb ab by (intro image_eqI [of _ _ "(b, vb)"]) auto
    qed
  qed
qed

lemma effective_replaced:
  assumes inc: "increasing ps" and inc': "increasing qs"
    and a: "a \<in> fst ` set ps" and b: "b \<in> fst ` set ps" and ab: "a < b"
    and qs: "set qs = {p \<in> set ps. fst p < a \<or> b < fst p} \<union> {(a, c), (b, effective ps b)}"
  shows "effective qs x = (if x < a then effective ps x else if x < b then c else effective ps x)"
proof -
  consider (before) "x < a" | (inside) "a \<le> x" "x < b" | (after) "b \<le> x" by linarith
  then show ?thesis
  proof cases
    case before
    have "{p \<in> set qs. fst p \<le> x} = {p \<in> set ps. fst p \<le> x}"
      unfolding qs using before ab by auto
    then show ?thesis using effective_cong [OF inc' inc] before by simp
  next
    case inside
    have "governs qs x a c"
      unfolding governs_def qs using inside by auto
    then show ?thesis using effective_governs [OF inc'] inside by simp
  next
    case after
    obtain vb where vb: "(b, vb) \<in> set ps" using b by auto
    from governs_cases [of ps x] obtain k v where g: "governs ps x k v"
      using vb after by fastforce
    then have kv: "(k, v) \<in> set ps" "k \<le> x" "\<forall>p\<in>set ps. fst p \<le> x \<longrightarrow> fst p \<le> k"
      by (simp_all add: governs_def)
    have v: "effective ps x = v" using effective_governs [OF inc g] .
    have bk: "b \<le> k" using kv(3) vb after by fastforce
    show ?thesis
    proof (cases "k = b")
      case True
      have "effective ps x = effective ps b"
        using after kv(3) True by (intro effective_between) fastforce+
      moreover have "governs qs x b (effective ps b)"
        unfolding governs_def qs using after kv(3) True ab by auto
      then have "effective qs x = effective ps b" using effective_governs [OF inc'] by blast
      ultimately show ?thesis using after ab by simp
    next
      case False
      then have "b < k" using bk by simp
      then have "governs qs x k v"
        unfolding governs_def qs using kv ab by auto
      then have "effective qs x = v" using effective_governs [OF inc'] by blast
      then show ?thesis using v after ab by simp
    qed
  qed
qed

lemma keys_map_keep:
  "(\<And>p. fst (g p) = fst p) \<Longrightarrow> fst ` set (map g ps) = fst ` set ps"
  by (simp add: image_image)

lemma RangeList_add_entries:
  assumes bst: "bst (root (tree R))" and ab: "a < b" and c: "c \<noteq> 0"
  shows "bst (root (tree (RangeList_add R a b c)))"
    and "canonical (entries (root (tree (RangeList_add R a b c))))"
    and "effective (entries (root (tree (RangeList_add R a b c)))) x =
           (if a \<le> x \<and> x < b then doubleAdd (effective (entries (root (tree R))) x) c
            else effective (entries (root (tree R))) x)"
proof -
  let ?R1 = "ensurePointExists R a"
  let ?R2 = "ensurePointExists ?R1 b"
  let ?R3 = "adjustIntensities ?R2 a b c"
  let ?g = "\<lambda>p. if a \<le> fst p \<and> fst p < b then (fst p, doubleAdd (snd p) c) else p"
  have E: "RangeList_add R a b c = cleanupRedundantPoints ?R3"
    using ab c by (simp add: RangeList_add_def Let_def)
  have b1: "bst (root (tree ?R1))" using bst by (rule ensurePointExists_entries(1))
  have b2: "bst (root (tree ?R2))" using b1 by (rule ensurePointExists_entries(1))
  have b3: "bst (root (tree ?R3))" using b2 ab by (rule adjustIntensities_entries(1))
  have k2: "keySet (root (tree ?R2)) = insert b (insert a (keySet (root (tree R))))"
    using ensurePointExists_keys [OF b1, of b] ensurePointExists_keys [OF bst, of a] by simp
  have e3: "entries (root (tree ?R3)) = map ?g (entries (root (tree ?R2)))"
    using b2 ab by (rule adjustIntensities_entries(2))
  have inc2: "increasing (entries (root (tree ?R2)))" using b2 by (simp add: bst_def)
  have inc3: "increasing (entries (root (tree ?R3)))" using b3 by (simp add: bst_def)
  have in2: "a \<in> fst ` set (entries (root (tree ?R2)))" "b \<in> fst ` set (entries (root (tree ?R2)))"
    using k2 by (simp_all add: keySet_def)
  have "fst ` set (entries (root (tree ?R3))) = fst ` set (entries (root (tree ?R2)))"
    unfolding e3 by (rule keys_map_keep) simp
  then have "\<not> length (entries (root (tree ?R3))) \<le> 1"
    using in2 ab by (intro two_keys_length [of a _ b]) simp_all
  then have e4: "entries (root (tree (RangeList_add R a b c))) = canon (Finite 0) (entries (root (tree ?R3)))"
    unfolding E using cleanupRedundantPoints_entries(2) [OF b3] by simp
  show "bst (root (tree (RangeList_add R a b c)))"
    unfolding E using b3 by (rule cleanupRedundantPoints_entries(1))
  show "canonical (entries (root (tree (RangeList_add R a b c))))"
    unfolding e4 by (rule canonical_canon)
  have "effective (entries (root (tree (RangeList_add R a b c)))) x
          = effective (map ?g (entries (root (tree ?R2)))) x"
    unfolding e4 using effective_canon [OF inc3] by (simp add: e3)
  also have "\<dots> = (if a \<le> x \<and> x < b then doubleAdd (effective (entries (root (tree ?R2))) x) c
                     else effective (entries (root (tree ?R2))) x)"
    using inc2 in2 ab by (rule effective_shift)
  also have "effective (entries (root (tree ?R2))) x = effective (entries (root (tree R))) x"
    using ensurePointExists_effective [OF b1, of b x] ensurePointExists_effective [OF bst, of a x]
    by simp
  finally show "effective (entries (root (tree (RangeList_add R a b c)))) x =
           (if a \<le> x \<and> x < b then doubleAdd (effective (entries (root (tree R))) x) c
            else effective (entries (root (tree R))) x)" .
qed

lemma RangeList_set_entries:
  assumes bst: "bst (root (tree R))" and ab: "a < b"
  shows "bst (root (tree (RangeList_set R a b c)))"
    and "canonical (entries (root (tree (RangeList_set R a b c))))"
    and "effective (entries (root (tree (RangeList_set R a b c)))) x =
           (if x < a then effective (entries (root (tree R))) x
            else if x < b then Finite c else effective (entries (root (tree R))) x)"
proof -
  let ?R1 = "ensurePointExists R a"
  let ?R2 = "ensurePointExists ?R1 b"
  let ?R3 = "removePointsInRange ?R2 a b"
  let ?R4 = "?R3\<lparr>tree := AVLTree_update (tree ?R3) a (Finite c)\<rparr>"
  let ?d = "getIntensityAt R b"
  let ?R5 = "?R4\<lparr>tree := AVLTree_update (tree ?R4) b ?d\<rparr>"
  let ?ps = "entries (root (tree ?R2))"
  have E: "RangeList_set R a b c = cleanupRedundantPoints ?R5"
    using ab by (simp add: RangeList_set_def Let_def)
  have b1: "bst (root (tree ?R1))" using bst by (rule ensurePointExists_entries(1))
  have b2: "bst (root (tree ?R2))" using b1 by (rule ensurePointExists_entries(1))
  have b3: "bst (root (tree ?R3))" using b2 by (rule removePointsInRange_entries(1))
  have b4: "bst (root (tree ?R4))" using bst_assignValue [OF b3] by simp
  have b5: "bst (root (tree ?R5))" using bst_assignValue [OF b4] by simp
  have eff2: "effective ?ps y = effective (entries (root (tree R))) y" for y
    using ensurePointExists_effective [OF b1, of b y] ensurePointExists_effective [OF bst, of a y]
    by simp
  have d: "?d = effective ?ps b"
    using getIntensityAt_effective [OF bst, of b] eff2 [of b] by simp
  have k2: "keySet (root (tree ?R2)) = insert b (insert a (keySet (root (tree R))))"
    using ensurePointExists_keys [OF b1, of b] ensurePointExists_keys [OF bst, of a] by simp
  have in2: "a \<in> fst ` set ?ps" "b \<in> fst ` set ?ps"
    using k2 by (simp_all add: keySet_def)
  have e3: "entries (root (tree ?R3)) = filter (\<lambda>p. \<not> (a < fst p \<and> fst p < b)) ?ps"
    using b2 by (rule removePointsInRange_entries(2))
  have e4: "entries (root (tree ?R4)) =
              map (\<lambda>p. if fst p = a then (a, Finite c) else p) (entries (root (tree ?R3)))"
    using entries_assignValue [OF b3] by simp
  have e5: "entries (root (tree ?R5)) =
              map (\<lambda>p. if fst p = b then (b, ?d) else p) (entries (root (tree ?R4)))"
    using entries_assignValue [OF b4] by simp
  have L: "entries (root (tree ?R5)) =
             map (\<lambda>p. if fst p = b then (b, ?d) else p)
               (map (\<lambda>p. if fst p = a then (a, Finite c) else p)
                  (filter (\<lambda>p. \<not> (a < fst p \<and> fst p < b)) ?ps))"
    unfolding e5 e4 e3 ..
  have "set (entries (root (tree ?R5))) =
              {p \<in> set ?ps. fst p < a \<or> b < fst p} \<union> {(a, Finite c), (b, ?d)}"
    unfolding L using in2 ab by (rule set_replaced)
  then have s5: "set (entries (root (tree ?R5))) =
              {p \<in> set ?ps. fst p < a \<or> b < fst p} \<union> {(a, Finite c), (b, effective ?ps b)}"
    by (simp only: d)
  have inc2: "increasing ?ps" using b2 by (simp add: bst_def)
  have inc5: "increasing (entries (root (tree ?R5)))" using b5 by (simp add: bst_def)
  have "a \<in> fst ` set (entries (root (tree ?R5)))" "b \<in> fst ` set (entries (root (tree ?R5)))"
    unfolding s5 by force+
  then have "\<not> length (entries (root (tree ?R5))) \<le> 1"
    using ab by (intro two_keys_length [of a _ b]) simp_all
  then have e6: "entries (root (tree (RangeList_set R a b c))) = canon (Finite 0) (entries (root (tree ?R5)))"
    unfolding E using cleanupRedundantPoints_entries(2) [OF b5] by simp
  show "bst (root (tree (RangeList_set R a b c)))"
    unfolding E using b5 by (rule cleanupRedundantPoints_entries(1))
  show "canonical (entries (root (tree (RangeList_set R a b c))))"
    unfolding e6 by (rule canonical_canon)
  have "effective (entries (root (tree (RangeList_set R a b c)))) x
          = effective (entries (root (tree ?R5))) x"
    unfolding e6 using inc5 by (rule effective_canon)
  also have "\<dots> = (if x < a then effective ?ps x else if x < b then Finite c else effective ?ps x)"
    using inc2 inc5 in2 ab s5 by (rule effective_replaced)
  finally show "effective (entries (root (tree (RangeList_set R a b c)))) x =
           (if x < a then effective (entries (root (tree R))) x
            else if x < b then Finite c else effective (entries (root (tree R))) x)"
    by (simp add: eff2)
qed

lemma applyListOp_invariants:
  assumes "bst (root (tree R))"
  shows "bst (root (tree (applyListOp R call)))"
    and "canonical (toArray R) \<Longrightarrow> canonical (toArray (applyListOp R call))"
proof -
  have "bst (root (tree (applyListOp R call)))
        \<and> (canonical (toArray R) \<longrightarrow> canonical (toArray (applyListOp R call)))"
  proof (cases call)
    case (AddCall a b c)
    show ?thesis
    proof (cases "a < b \<and> c \<noteq> 0")
      case True
      then show ?thesis
        using RangeList_add_entries(1,2) [OF assms, of a b c] AddCall
        by (simp add: toArray_entries)
    next
      case False
      then have "RangeList_add R a b c = R" by (auto simp: RangeList_add_def)
      then show ?thesis using assms AddCall by simp
    qed
  next
    case (SetCall a b c)
    show ?thesis
    proof (cases "a < b")
      case True
      then show ?thesis
        using RangeList_set_entries(1,2) [OF assms, of a b c] SetCall
        by (simp add: toArray_entries)
    next
      case False
      then have "RangeList_set R a b c = R" by (auto simp: RangeList_set_def)
      then show ?thesis using assms SetCall by simp
    qed
  qed
  then show "bst (root (tree (applyListOp R call)))"
    and "canonical (toArray R) \<Longrightarrow> canonical (toArray (applyListOp R call))"
    by blast+
qed

lemma runListOps_invariants:
  "bst (root (tree (runListOps calls))) \<and> canonical (toArray (runListOps calls))"
proof (induction calls rule: rev_induct)
  case Nil
  then show ?case
    by (simp add: runListOps_def RangeList_new_def toArray_entries canonical_def)
next
  case (snoc call calls)
  have "runListOps (calls @ [call]) = applyListOp (runListOps calls) call"
    by (simp add: runListOps_def)
  then show ?case using applyListOp_invariants [of "runListOps calls" call] snoc by simp
qed

lemmas list_eval = runListOps_def RangeList_new_def RangeList_add_def RangeList_set_def
  ensurePointExists_def getIntensityAt_def adjustIntensities_def adjustStep_def
  removePointsInRange_def removeStep_def cleanupRedundantPoints_def toArray_def effective_def
  tree_eval

section \<open>The claims about the range list\<close>

text \<open>
  The effective intensity of the claims is \<open>effective (toArray R) x\<close>: on the exported
  pairs, whose keys increase, it is the value of the last pair with key at most \<open>x\<close>, and
  \<open>0\<close> when there is none (\<open>effective_governs\<close> and \<open>effective_none\<close> state this with the
  greatest key; \<open>getIntensityAt_effective\<close> shows that \<open>_getIntensityAt\<close> computes it).
  A reachable range list is \<open>runListOps calls\<close>: a fresh one after any sequence of \<open>add\<close>
  and \<open>set\<close> calls.

  C1, counterexample. \<open>add\<close> computes \<open>node.value + amount\<close> in double arithmetic, so the
  effective intensity does not always grow by the amount. After \<open>add(0, 10, 2 ^ 53)\<close> the
  intensity at 7 is \<open>2 ^ 53 = 9007199254740992\<close>; \<open>add(5, 10, 1)\<close> stores
  \<open>2 ^ 53 + 1\<close> rounded, which is \<open>2 ^ 53\<close> again, at the new point 5, the cleanup removes
  that point, and the intensity at 7 is still \<open>2 ^ 53\<close>.
\<close>

theorem RangeList_add_absorbs:
  "toArray (runListOps [AddCall 0 10 9007199254740992])
     = [(0, Finite 9007199254740992), (10, Finite 0)]
   \<and> effective (toArray (runListOps [AddCall 0 10 9007199254740992])) 7 = Finite 9007199254740992
   \<and> toArray (RangeList_add (runListOps [AddCall 0 10 9007199254740992]) 5 10 1)
     = [(0, Finite 9007199254740992), (10, Finite 0)]
   \<and> effective (toArray (RangeList_add (runListOps [AddCall 0 10 9007199254740992]) 5 10 1)) 7
     \<noteq> Finite (9007199254740992 + 1)"
  by (simp add: list_eval roundDouble_absorbs)

text \<open>
  C1, as the code has it. \<open>add(from, to, amount)\<close> leaves \<open>toArray()\<close> as it is when
  \<open>from \<ge> to\<close> or the amount is 0. Otherwise the effective intensity at every \<open>p\<close> with
  \<open>from \<le> p < to\<close> becomes the double sum of what it was and the amount (\<open>doubleAdd\<close>:
  the exact sum rounded to the nearest double, an infinity on overflow), which is the exact
  sum whenever that sum is a double, \<open>m * 2 ^ e\<close> with \<open>|m| < 2 ^ 53\<close>, \<open>e \<ge> -1074\<close> and
  magnitude below \<open>2 ^ 1024\<close>; and the effective intensity at every other \<open>p\<close> is
  unchanged.
\<close>

theorem RangeList_add_spec:
  "(from < to \<and> amount \<noteq> 0 \<and> from \<le> p \<and> p < to \<longrightarrow>
      effective (toArray (RangeList_add (runListOps calls) from to amount)) p
        = doubleAdd (effective (toArray (runListOps calls)) p) amount)
   \<and> (from < to \<and> amount \<noteq> 0 \<and> from \<le> p \<and> p < to
        \<and> effective (toArray (runListOps calls)) p = Finite v
        \<and> v + amount = of_int m * 2 powi e \<and> \<bar>m\<bar> < 2 ^ 53 \<and> - 1074 \<le> e
        \<and> \<bar>v + amount\<bar> < 2 ^ 1024 \<longrightarrow>
      effective (toArray (RangeList_add (runListOps calls) from to amount)) p
        = Finite (v + amount))
   \<and> (from < to \<and> amount \<noteq> 0 \<and> (p < from \<or> to \<le> p) \<longrightarrow>
      effective (toArray (RangeList_add (runListOps calls) from to amount)) p
        = effective (toArray (runListOps calls)) p)
   \<and> (from \<ge> to \<or> amount = 0 \<longrightarrow>
      toArray (RangeList_add (runListOps calls) from to amount) = toArray (runListOps calls))"
proof -
  have b: "bst (root (tree (runListOps calls)))" using runListOps_invariants by blast
  have n: "from \<ge> to \<or> amount = 0 \<Longrightarrow>
          RangeList_add (runListOps calls) from to amount = runListOps calls"
    by (auto simp: RangeList_add_def)
  have x: "doubleAdd (Finite v) amount = Finite (v + amount)"
    if "v + amount = of_int m * 2 powi e" "\<bar>m\<bar> < 2 ^ 53" "- 1074 \<le> e"
      "\<bar>v + amount\<bar> < 2 ^ 1024"
    using roundDouble_exact [OF that] by simp
  show ?thesis
    using RangeList_add_entries(3) [OF b, of "from" "to" amount p] n x
    by (auto simp: toArray_entries)
qed

theorem RangeList_add_spec_witness:
  "toArray (runListOps [AddCall 10 30 1]) = [(10, Finite 1), (30, Finite 0)]
   \<and> toArray (RangeList_add (runListOps [AddCall 10 30 1]) 20 40 1)
       = [(10, Finite 1), (20, Finite 2), (30, Finite 1), (40, Finite 0)]
   \<and> effective (toArray (RangeList_add (runListOps [AddCall 10 30 1]) 20 40 1)) 25
       = doubleAdd (effective (toArray (runListOps [AddCall 10 30 1])) 25) 1
   \<and> effective (toArray (RangeList_add (runListOps [AddCall 10 30 1]) 20 40 1)) 25 = Finite 2
   \<and> effective (toArray (RangeList_add (runListOps [AddCall 10 30 1]) 20 40 1)) 15
       = effective (toArray (runListOps [AddCall 10 30 1])) 15
   \<and> toArray (RangeList_add (runListOps [AddCall 10 30 1]) 30 30 5)
       = toArray (runListOps [AddCall 10 30 1])"
  using RangeList_add_spec [of 30 30 5 0 "[AddCall 10 30 1]" 0 0 0]
    RangeList_add_spec [of 20 40 1 25 "[AddCall 10 30 1]" 1 2 0]
    RangeList_add_spec [of 20 40 1 15 "[AddCall 10 30 1]" 1 2 0]
  by (simp add: list_eval)

text \<open>
  C2. \<open>set(from, to, amount)\<close> leaves \<open>toArray()\<close> as it is when \<open>from \<ge> to\<close>; when
  \<open>from < to\<close>, the effective intensity is \<open>amount\<close> at every \<open>p\<close> with \<open>from \<le> p < to\<close>
  afterwards, and at every \<open>p \<ge> to\<close> it is what it was before the call.
\<close>

theorem RangeList_set_spec:
  "(from < to \<and> from \<le> p \<and> p < to \<longrightarrow>
      effective (toArray (RangeList_set (runListOps calls) from to amount)) p = Finite amount)
   \<and> (from < to \<and> to \<le> p \<longrightarrow>
      effective (toArray (RangeList_set (runListOps calls) from to amount)) p
        = effective (toArray (runListOps calls)) p)
   \<and> (from \<ge> to \<longrightarrow>
      toArray (RangeList_set (runListOps calls) from to amount) = toArray (runListOps calls))"
proof -
  have b: "bst (root (tree (runListOps calls)))" using runListOps_invariants by blast
  have "from \<ge> to \<Longrightarrow> RangeList_set (runListOps calls) from to amount = runListOps calls"
    by (auto simp: RangeList_set_def)
  then show ?thesis
    using RangeList_set_entries(3) [OF b, of "from" "to" amount p]
    by (auto simp: toArray_entries)
qed

theorem RangeList_set_spec_witness:
  "toArray (RangeList_set (runListOps [AddCall 10 50 1]) 20 40 5)
       = [(10, Finite 1), (20, Finite 5), (40, Finite 1), (50, Finite 0)]
   \<and> effective (toArray (RangeList_set (runListOps [AddCall 10 50 1]) 20 40 5)) 30 = Finite 5
   \<and> effective (toArray (RangeList_set (runListOps [AddCall 10 50 1]) 20 40 5)) 45
       = effective (toArray (runListOps [AddCall 10 50 1])) 45
   \<and> effective (toArray (runListOps [AddCall 10 50 1])) 45 = Finite 1
   \<and> toArray (RangeList_set (runListOps [AddCall 10 50 1]) 30 30 5)
       = toArray (runListOps [AddCall 10 50 1])"
  using RangeList_set_spec [of 30 30 0 "[AddCall 10 50 1]" 5]
    RangeList_set_spec [of 20 40 30 "[AddCall 10 50 1]" 5]
    RangeList_set_spec [of 20 40 45 "[AddCall 10 50 1]" 5]
  by (simp add: list_eval)

text \<open>
  C3 (canonical form). After every \<open>add\<close> or \<open>set\<close> call on a reachable range list, no
  two adjacent pairs of \<open>toArray()\<close> have the same intensity, and the first pair, when there
  is one, has an intensity other than 0.
\<close>

theorem canonical_after_call:
  "canonical (toArray (applyListOp (runListOps calls) call))"
  using runListOps_invariants [of calls] applyListOp_invariants(2) by blast

theorem canonical_after_call_witness:
  "toArray (applyListOp (runListOps [AddCall 10 20 5]) (AddCall 20 30 5))
     = [(10, Finite 5), (30, Finite 0)]
   \<and> canonical (toArray (applyListOp (runListOps [AddCall 10 20 5]) (AddCall 20 30 5)))
   \<and> toArray (applyListOp (runListOps [AddCall 10 30 5]) (AddCall 10 30 (- 5))) = []"
  using canonical_after_call [of "[AddCall 10 20 5]" "AddCall 20 30 5"]
  by (simp add: list_eval)

text \<open>
  C8 (frame of \<open>set\<close> before the range). For \<open>from < to\<close>, \<open>set(from, to, amount)\<close> on a
  reachable range list leaves the effective intensity at every \<open>p < from\<close> unchanged.
\<close>

theorem RangeList_set_frame_before:
  assumes "from < to" "p < from"
  shows "effective (toArray (RangeList_set (runListOps calls) from to amount)) p
           = effective (toArray (runListOps calls)) p"
proof -
  have b: "bst (root (tree (runListOps calls)))" using runListOps_invariants by blast
  show ?thesis
    using RangeList_set_entries(3) [OF b assms(1), of amount p] assms(2)
    by (simp add: toArray_entries)
qed

theorem RangeList_set_frame_before_witness:
  "(20 :: real) < 40 \<and> (15 :: real) < 20
   \<and> effective (toArray (RangeList_set (runListOps [AddCall 10 50 1]) 20 40 5)) 15
       = effective (toArray (runListOps [AddCall 10 50 1])) 15
   \<and> effective (toArray (runListOps [AddCall 10 50 1])) 15 = Finite 1"
proof -
  have h: "(20 :: real) < 40" "(15 :: real) < 20" by simp_all
  show ?thesis
    using h RangeList_set_frame_before [OF h, of "[AddCall 10 50 1]" 5]
    by (simp add: list_eval)
qed

end
